theory Spec2Isabelle
  imports Complex_Main
begin

section \<open>Shared vocabulary\<close>

text \<open>
  The repository holds two implementations of the same asynchronous data aggregator:
  \<^verbatim>\<open>results-with-mcp/python/test-5-result.py\<close> and
  \<^verbatim>\<open>results-without-mcp/python/test-5-result.py\<close>. Both are embedded here. The
  definitions of the first keep the names of the source; the definitions of the second
  carry the suffix \<open>_nomcp\<close>.

  Python floats are modelled as \<open>real\<close> (rounding and the range of a float are not
  modelled, with one exception: the conversion of \<^verbatim>\<open>2 ** attempt\<close> to a float in the
  back-off delay, which raises from attempt 1024 on), Python integers as \<open>int\<close>,
  dictionaries as maps. A reading of \<^verbatim>\<open>time.monotonic()\<close> is an explicit
  argument or a field \<open>clock\<close> of the state; \<^verbatim>\<open>asyncio.sleep(d)\<close> moves the clock
  forward by \<open>max 0 d\<close>.
\<close>

type_synonym endpoint = string

text \<open>
  The exceptions the code can meet. \<open>str_exn\<close> is Python's \<^verbatim>\<open>str(e)\<close>: the
  \<^verbatim>\<open>TimeoutError\<close> of \<^verbatim>\<open>asyncio.wait_for\<close> is raised without arguments, so its text
  is empty; \<open>TypeError\<close> is what \<^verbatim>\<open>raise None\<close> raises; \<open>OverflowError\<close> is what the
  product of a float and an integer raises when the integer is too large for a float;
  \<open>Exception m\<close> is any other exception with message \<open>m\<close>.
\<close>

datatype exn =
    TimeoutError
  | ZeroDivisionError
  | IndexError
  | TypeError
  | OverflowError
  | Exception string

fun str_exn :: "exn \<Rightarrow> string" where
  "str_exn TimeoutError = []"
| "str_exn ZeroDivisionError = ''float division by zero''"
| "str_exn IndexError = ''list index out of range''"
| "str_exn TypeError = ''exceptions must derive from BaseException''"
| "str_exn OverflowError = ''int too large to convert to float''"
| "str_exn (Exception m) = m"

definition sleep :: "real \<Rightarrow> real \<Rightarrow> real" where
  "sleep d now = now + max 0 d"

text \<open>
  Both implementations compute the back-off delay as the product of a float and the
  integer \<^verbatim>\<open>2 ** attempt\<close>. Python converts the integer to a float first, and the
  conversion raises \<^verbatim>\<open>OverflowError\<close> from \<open>2 ^ 1024\<close> on, whatever the float is.
  \<open>backoff_delay\<close> is that product: the exception, or the delay as a real number.
\<close>

definition backoff_delay :: "real \<Rightarrow> nat \<Rightarrow> exn + real" where
  "backoff_delay base_delay attempt =
     (if attempt \<ge> 1024 then Inl OverflowError else Inr (base_delay * 2 ^ attempt))"

section \<open>With MCP: the token bucket\<close>

record RateLimiter =
  max_requests :: int
  time_window :: real
  tokens :: real
  last_update :: real

definition RateLimiter_init :: "int \<Rightarrow> real \<Rightarrow> real \<Rightarrow> RateLimiter" where
  "RateLimiter_init maxr window now =
     \<lparr>max_requests = maxr, time_window = window, tokens = real_of_int maxr, last_update = now\<rparr>"

text \<open>\<^verbatim>\<open>_refill\<close>: the division by \<^verbatim>\<open>self._time_window\<close> raises when the window is 0.\<close>

definition refill :: "real \<Rightarrow> RateLimiter \<Rightarrow> exn + RateLimiter" where
  "refill now rl =
     (if time_window rl = 0 then Inl ZeroDivisionError
      else
        let elapsed = now - last_update rl;
            new_tokens = elapsed * (real_of_int (max_requests rl) / time_window rl)
        in Inr (rl\<lparr>tokens := min (real_of_int (max_requests rl)) (tokens rl + new_tokens),
                   last_update := now\<rparr>))"

text \<open>
  \<^verbatim>\<open>_wait_for_token\<close>: a \<^verbatim>\<open>while\<close> loop that may run forever, so it takes fuel: the
  number of times the loop body may run. \<open>None\<close> is "still waiting when the fuel ran out".
  The result carries the clock at the return.
\<close>

fun wait_for_token ::
  "nat \<Rightarrow> real \<Rightarrow> RateLimiter \<Rightarrow> ((exn + unit) \<times> real \<times> RateLimiter) option" where
  "wait_for_token 0 now rl = (if tokens rl \<le> 0 then None else Some (Inr (), now, rl))"
| "wait_for_token (Suc fuel) now rl =
     (if tokens rl \<le> 0 then
        (case refill now rl of
           Inl e \<Rightarrow> Some (Inl e, now, rl)
         | Inr rl1 \<Rightarrow>
             if tokens rl1 \<le> 0 then
               (if max_requests rl1 = 0 then Some (Inl ZeroDivisionError, now, rl1)
                else
                  let wait_time = time_window rl1 / real_of_int (max_requests rl1);
                      now2 = sleep wait_time now
                  in (case refill now2 rl1 of
                        Inl e \<Rightarrow> Some (Inl e, now2, rl1)
                      | Inr rl2 \<Rightarrow> wait_for_token fuel now2 rl2))
             else wait_for_token fuel now rl1)
      else Some (Inr (), now, rl))"

definition acquire ::
  "nat \<Rightarrow> real \<Rightarrow> RateLimiter \<Rightarrow> ((exn + unit) \<times> real \<times> RateLimiter) option" where
  "acquire fuel now rl =
     (case wait_for_token fuel now rl of
        None \<Rightarrow> None
      | Some (Inl e, now', rl') \<Rightarrow> Some (Inl e, now', rl')
      | Some (Inr u, now', rl') \<Rightarrow> Some (Inr (), now', rl'\<lparr>tokens := tokens rl' - 1\<rparr>))"

text \<open>
  A driver for a sequence of \<^verbatim>\<open>acquire\<close> calls, the i-th made when the clock reads at
  least \<open>ts ! i\<close> (a call cannot start before the previous one has returned).
\<close>

fun acquire_at ::
  "nat \<Rightarrow> real list \<Rightarrow> real \<Rightarrow> RateLimiter \<Rightarrow> ((exn + unit) \<times> real \<times> RateLimiter) option" where
  "acquire_at fuel [] now rl = Some (Inr (), now, rl)"
| "acquire_at fuel (t # ts) now rl =
     (case acquire fuel (max t now) rl of
        None \<Rightarrow> None
      | Some (Inl e, now', rl') \<Rightarrow> Some (Inl e, now', rl')
      | Some (Inr u, now', rl') \<Rightarrow> acquire_at fuel ts now' rl')"

section \<open>With MCP: the circuit breaker registry\<close>

datatype CircuitState = CLOSED | OPEN | HALF_OPEN

record CircuitBreaker =
  failure_threshold :: int
  recovery_timeout :: real
  failure_counts :: "endpoint \<rightharpoonup> int"
  open_times :: "endpoint \<rightharpoonup> real"
  states :: "endpoint \<rightharpoonup> CircuitState"

definition CircuitBreaker_init :: "int \<Rightarrow> real \<Rightarrow> CircuitBreaker" where
  "CircuitBreaker_init threshold recovery =
     \<lparr>failure_threshold = threshold, recovery_timeout = recovery,
      failure_counts = Map.empty, open_times = Map.empty, states = Map.empty\<rparr>"

definition get_state :: "real \<Rightarrow> CircuitBreaker \<Rightarrow> endpoint \<Rightarrow> CircuitState \<times> CircuitBreaker" where
  "get_state now cb ep =
     (case states cb ep of
        None \<Rightarrow> (CLOSED, cb)
      | Some state \<Rightarrow>
          if state = OPEN \<and>
             now - (case open_times cb ep of None \<Rightarrow> 0 | Some t \<Rightarrow> t) \<ge> recovery_timeout cb
          then (HALF_OPEN, cb\<lparr>states := (states cb)(ep \<mapsto> HALF_OPEN)\<rparr>)
          else (state, cb))"

definition is_open :: "real \<Rightarrow> CircuitBreaker \<Rightarrow> endpoint \<Rightarrow> bool \<times> CircuitBreaker" where
  "is_open now cb ep = (case get_state now cb ep of (state, cb') \<Rightarrow> (state = OPEN, cb'))"

definition record_success :: "CircuitBreaker \<Rightarrow> endpoint \<Rightarrow> CircuitBreaker" where
  "record_success cb ep =
     cb\<lparr>failure_counts := (failure_counts cb)(ep \<mapsto> 0),
        states := (states cb)(ep \<mapsto> CLOSED)\<rparr>"

definition record_failure :: "real \<Rightarrow> CircuitBreaker \<Rightarrow> endpoint \<Rightarrow> CircuitBreaker" where
  "record_failure now cb ep =
     (let n = (case failure_counts cb ep of None \<Rightarrow> 0 | Some c \<Rightarrow> c) + 1;
          cb1 = cb\<lparr>failure_counts := (failure_counts cb)(ep \<mapsto> n)\<rparr>
      in if n \<ge> failure_threshold cb1
         then cb1\<lparr>states := (states cb1)(ep \<mapsto> OPEN),
                  open_times := (open_times cb1)(ep \<mapsto> now)\<rparr>
         else cb1)"

text \<open>
  A driver: \<open>k\<close> calls of \<^verbatim>\<open>record_failure\<close> for one endpoint, the i-th when the clock
  reads \<open>ts ! i\<close>.
\<close>

fun record_failures :: "real list \<Rightarrow> CircuitBreaker \<Rightarrow> endpoint \<Rightarrow> CircuitBreaker" where
  "record_failures [] cb ep = cb"
| "record_failures (t # ts) cb ep = record_failures ts (record_failure t cb ep) ep"

section \<open>Without MCP: the circuit breaker of one endpoint\<close>

datatype CircuitState_nomcp = CLOSED_nomcp | OPEN_nomcp

record CircuitBreaker_nomcp =
  max_failures :: int
  recovery_time :: real
  failure_count :: int
  state :: CircuitState_nomcp
  last_failure_time :: real

definition CircuitBreaker_init_nomcp :: "int \<Rightarrow> real \<Rightarrow> CircuitBreaker_nomcp" where
  "CircuitBreaker_init_nomcp maxf recovery =
     \<lparr>max_failures = maxf, recovery_time = recovery, failure_count = 0,
      state = CLOSED_nomcp, last_failure_time = 0\<rparr>"

definition record_success_nomcp :: "CircuitBreaker_nomcp \<Rightarrow> CircuitBreaker_nomcp" where
  "record_success_nomcp cb = cb\<lparr>failure_count := 0, state := CLOSED_nomcp\<rparr>"

definition record_failure_nomcp :: "real \<Rightarrow> CircuitBreaker_nomcp \<Rightarrow> CircuitBreaker_nomcp" where
  "record_failure_nomcp now cb =
     (let cb1 = cb\<lparr>failure_count := failure_count cb + 1, last_failure_time := now\<rparr>
      in if failure_count cb1 \<ge> max_failures cb1 then cb1\<lparr>state := OPEN_nomcp\<rparr> else cb1)"

definition is_available_nomcp :: "real \<Rightarrow> CircuitBreaker_nomcp \<Rightarrow> bool" where
  "is_available_nomcp now cb =
     (if state cb = CLOSED_nomcp then True
      else if now - last_failure_time cb \<ge> recovery_time cb then True
      else False)"

fun record_failures_nomcp :: "real list \<Rightarrow> CircuitBreaker_nomcp \<Rightarrow> CircuitBreaker_nomcp" where
  "record_failures_nomcp [] cb = cb"
| "record_failures_nomcp (t # ts) cb = record_failures_nomcp ts (record_failure_nomcp t cb)"

section \<open>Results, progress reports and the trace of collaborator calls\<close>

text \<open>Payloads (\<^verbatim>\<open>Any\<close> in the source) are JSON-like values.\<close>

datatype json = JNone | JInt int | JStr string | JDict "(string \<times> json) list"

record AggregatedResult =
  successful :: "endpoint \<rightharpoonup> json"
  failed :: "endpoint \<rightharpoonup> string"
  duration_seconds :: real

definition success_count :: "AggregatedResult \<Rightarrow> nat" where
  "success_count r = card (dom (successful r))"

definition failure_count_of :: "AggregatedResult \<Rightarrow> nat" where
  "failure_count_of r = card (dom (failed r))"

datatype ProgressInfo =
  ProgressInfo (pi_completed: int) (pi_total: int) (pi_endpoint: endpoint) (pi_success: bool)
    (pi_error: "string option")

text \<open>
  Every call of a collaborator is written to a trace, in the order of the calls: the
  breaker being asked, the rate limiter's \<^verbatim>\<open>acquire\<close>, the transport, the two breaker
  recordings, the back-off sleeps and the progress callback.
\<close>

datatype event =
    BreakerCheck endpoint
  | Acquire
  | TransportCall endpoint
  | RecordSuccess endpoint
  | RecordFailure endpoint
  | Sleep real
  | Progress ProgressInfo
  | Progress_nomcp int int

text \<open>
  The transport collaborator is a state machine: from its state, the URL and the timeout
  it was given, it answers after a delay with a payload or an exception.
  \<^verbatim>\<open>asyncio.wait_for(c, timeout)\<close> lets the answer through when the delay is below the
  timeout and raises \<^verbatim>\<open>TimeoutError\<close> after \<open>timeout\<close> seconds otherwise.
\<close>

type_synonym 't transport = "'t \<Rightarrow> endpoint \<Rightarrow> real \<Rightarrow> (real \<times> (exn + json)) \<times> 't"

definition wait_for :: "real \<times> (exn + json) \<Rightarrow> real \<Rightarrow> real \<Rightarrow> (exn + json) \<times> real" where
  "wait_for answer tmo now =
     (case answer of (delay, r) \<Rightarrow>
        if delay < tmo then (r, sleep delay now) else (Inl TimeoutError, sleep tmo now))"

section \<open>With MCP: retry with exponential backoff\<close>

text \<open>
  \<^verbatim>\<open>retry_with_backoff\<close> over any state \<open>'s\<close>: \<open>func\<close> is the attempt, \<open>slp\<close> is
  \<^verbatim>\<open>asyncio.sleep\<close> on that state. \<open>retry_attempts\<close> is the \<^verbatim>\<open>for\<close> loop over the
  remaining values of \<^verbatim>\<open>range(max_attempts)\<close>; when the loop ends the last exception
  is raised, and \<^verbatim>\<open>raise None\<close> is a \<open>TypeError\<close>. An exception of the delay
  computation is raised inside the \<^verbatim>\<open>except\<close> clause and leaves the function.
\<close>

fun retry_attempts ::
  "(real \<Rightarrow> 's \<Rightarrow> 's) \<Rightarrow> ('s \<Rightarrow> (exn + 'a) \<times> 's) \<Rightarrow> int \<Rightarrow> real \<Rightarrow> nat list \<Rightarrow> exn option \<Rightarrow> 's
     \<Rightarrow> (exn + 'a) \<times> 's" where
  "retry_attempts slp func max_attempts base_delay [] last_exception s =
     (case last_exception of None \<Rightarrow> (Inl TypeError, s) | Some e \<Rightarrow> (Inl e, s))"
| "retry_attempts slp func max_attempts base_delay (attempt # rest) last_exception s =
     (case func s of
        (Inr v, s1) \<Rightarrow> (Inr v, s1)
      | (Inl e, s1) \<Rightarrow>
          if int attempt < max_attempts - 1 then
            (case backoff_delay base_delay attempt of
               Inl overflow \<Rightarrow> (Inl overflow, s1)
             | Inr delay \<Rightarrow>
                 retry_attempts slp func max_attempts base_delay rest (Some e) (slp delay s1))
          else retry_attempts slp func max_attempts base_delay rest (Some e) s1)"

definition retry_with_backoff ::
  "(real \<Rightarrow> 's \<Rightarrow> 's) \<Rightarrow> ('s \<Rightarrow> (exn + 'a) \<times> 's) \<Rightarrow> int \<Rightarrow> real \<Rightarrow> 's \<Rightarrow> (exn + 'a) \<times> 's" where
  "retry_with_backoff slp func max_attempts base_delay s =
     retry_attempts slp func max_attempts base_delay [0..<nat max_attempts] None s"

text \<open>
  A probe around an attempt function: it writes down every invocation with its result and
  every sleep with its length.
\<close>

datatype 'a probe_event = Called "exn + 'a" | Slept real

definition probe_call ::
  "('s \<Rightarrow> (exn + 'a) \<times> 's) \<Rightarrow> 'a probe_event list \<times> 's \<Rightarrow> (exn + 'a) \<times> 'a probe_event list \<times> 's" where
  "probe_call func p =
     (case p of (evs, s) \<Rightarrow> (case func s of (r, s') \<Rightarrow> (r, evs @ [Called r], s')))"

definition probe_sleep :: "real \<Rightarrow> 'a probe_event list \<times> 's \<Rightarrow> 'a probe_event list \<times> 's" where
  "probe_sleep d p = (case p of (evs, s) \<Rightarrow> (evs @ [Slept d], s))"

text \<open>The attempt function of \<^verbatim>\<open>test_retry_logic\<close>: it fails on its first two calls.\<close>

definition flaky_get :: "nat \<Rightarrow> (exn + json) \<times> nat" where
  "flaky_get call_count =
     (if call_count + 1 < 3 then (Inl (Exception ''Temporary failure''), call_count + 1)
      else (Inr (JDict [(''data'', JStr ''success'')]), call_count + 1))"

section \<open>With MCP: the aggregator\<close>

text \<open>
  The state of a \<^verbatim>\<open>DataAggregator\<close>, of the world around it (clock, transport, trace) and of
  the local variables of the running \<^verbatim>\<open>fetch_all\<close> (\<open>successful_d\<close>, \<open>failed_d\<close>,
  \<open>completed\<close>).
\<close>

record 't DataAggregator =
  http_client :: 't
  rate_limiter :: RateLimiter
  timeout :: real
  max_retries :: int
  circuit_breaker :: CircuitBreaker
  clock :: real
  trace :: "event list"
  successful_d :: "endpoint \<rightharpoonup> json"
  failed_d :: "endpoint \<rightharpoonup> string"
  completed :: int

text \<open>
  \<^verbatim>\<open>DataAggregator.__init__\<close>: it stores its arguments and builds the rate limiter; there
  is no \<^verbatim>\<open>raise\<close> on any path.
\<close>

definition DataAggregator_init ::
  "real \<Rightarrow> 't \<Rightarrow> int \<Rightarrow> real \<Rightarrow> int \<Rightarrow> CircuitBreaker option \<Rightarrow> exn + 't DataAggregator" where
  "DataAggregator_init now client rate_limit tmo retries cb =
     Inr \<lparr>http_client = client,
          rate_limiter = RateLimiter_init rate_limit 1 now,
          timeout = tmo,
          max_retries = retries,
          circuit_breaker = (case cb of None \<Rightarrow> CircuitBreaker_init 5 30 | Some c \<Rightarrow> c),
          clock = now, trace = [],
          successful_d = Map.empty, failed_d = Map.empty, completed = 0\<rparr>"

definition log_ev :: "event \<Rightarrow> 't DataAggregator \<Rightarrow> 't DataAggregator" where
  "log_ev ev s = s\<lparr>trace := trace s @ [ev]\<rparr>"

definition asyncio_sleep :: "real \<Rightarrow> 't DataAggregator \<Rightarrow> 't DataAggregator" where
  "asyncio_sleep d s = log_ev (Sleep d) (s\<lparr>clock := sleep d (clock s)\<rparr>)"

definition fetch_endpoint ::
  "'t transport \<Rightarrow> endpoint \<Rightarrow> 't DataAggregator \<Rightarrow> (exn + json) \<times> 't DataAggregator" where
  "fetch_endpoint get ep s =
     (case get (http_client s) ep (timeout s) of (answer, client') \<Rightarrow>
        (case wait_for answer (timeout s) (clock s) of (r, now') \<Rightarrow>
           (r, (log_ev (TransportCall ep) s)\<lparr>http_client := client', clock := now'\<rparr>)))"

text \<open>The optional progress callback: it may raise. A call is written to the trace.\<close>

type_synonym progress_cb = "(ProgressInfo \<Rightarrow> exn option) option"

definition call_progress ::
  "progress_cb \<Rightarrow> ProgressInfo \<Rightarrow> 't DataAggregator \<Rightarrow> (exn + unit) \<times> 't DataAggregator" where
  "call_progress on_progress info s =
     (case on_progress of
        None \<Rightarrow> (Inr (), s)
      | Some cb \<Rightarrow> (case cb info of None \<Rightarrow> (Inr (), log_ev (Progress info) s)
                                 | Some e \<Rightarrow> (Inl e, log_ev (Progress info) s)))"

text \<open>The body of the \<^verbatim>\<open>try\<close> block of \<^verbatim>\<open>fetch_one\<close>.\<close>

definition fetch_one_try ::
  "nat \<Rightarrow> 't transport \<Rightarrow> progress_cb \<Rightarrow> int \<Rightarrow> endpoint \<Rightarrow> 't DataAggregator
     \<Rightarrow> ((exn + unit) \<times> 't DataAggregator) option" where
  "fetch_one_try fuel get on_progress tot ep s =
     (case acquire fuel (clock s) (rate_limiter s) of
        None \<Rightarrow> None
      | Some (r, now', rl') \<Rightarrow>
          let s1 = (log_ev Acquire s)\<lparr>clock := now', rate_limiter := rl'\<rparr>
          in (case r of
                Inl e \<Rightarrow> Some (Inl e, s1)
              | Inr u \<Rightarrow>
                 (case retry_with_backoff asyncio_sleep (fetch_endpoint get ep)
                         (max_retries s1) (1 / 10) s1 of
                    (Inl e, s2) \<Rightarrow> Some (Inl e, s2)
                  | (Inr data, s2) \<Rightarrow>
                      let s3 = s2\<lparr>successful_d := (successful_d s2)(ep \<mapsto> data)\<rparr>;
                          s4 = log_ev (RecordSuccess ep)
                                 (s3\<lparr>circuit_breaker := record_success (circuit_breaker s3) ep\<rparr>);
                          s5 = s4\<lparr>completed := completed s4 + 1\<rparr>
                      in Some (call_progress on_progress
                                 (ProgressInfo (completed s5) tot ep True None) s5))))"

text \<open>The \<^verbatim>\<open>except Exception as e\<close> handler of \<^verbatim>\<open>fetch_one\<close>.\<close>

definition fetch_one_except ::
  "progress_cb \<Rightarrow> int \<Rightarrow> endpoint \<Rightarrow> exn \<Rightarrow> 't DataAggregator \<Rightarrow> (exn + unit) \<times> 't DataAggregator" where
  "fetch_one_except on_progress tot ep e s =
     (let error = str_exn e;
          s1 = s\<lparr>failed_d := (failed_d s)(ep \<mapsto> error)\<rparr>;
          s2 = log_ev (RecordFailure ep)
                 (s1\<lparr>circuit_breaker := record_failure (clock s1) (circuit_breaker s1) ep\<rparr>);
          s3 = s2\<lparr>completed := completed s2 + 1\<rparr>
      in call_progress on_progress (ProgressInfo (completed s3) tot ep False (Some error)) s3)"

definition fetch_one ::
  "nat \<Rightarrow> 't transport \<Rightarrow> progress_cb \<Rightarrow> int \<Rightarrow> endpoint \<Rightarrow> 't DataAggregator
     \<Rightarrow> ((exn + unit) \<times> 't DataAggregator) option" where
  "fetch_one fuel get on_progress tot ep s =
     (case is_open (clock s) (circuit_breaker s) ep of (opn, cb') \<Rightarrow>
        let s1 = log_ev (BreakerCheck ep) (s\<lparr>circuit_breaker := cb'\<rparr>)
        in if opn then
             let error = ''Circuit breaker open'';
                 s2 = s1\<lparr>failed_d := (failed_d s1)(ep \<mapsto> error)\<rparr>;
                 s3 = s2\<lparr>completed := completed s2 + 1\<rparr>
             in Some (call_progress on_progress
                        (ProgressInfo (completed s3) tot ep False (Some error)) s3)
           else
             (case fetch_one_try fuel get on_progress tot ep s1 of
                None \<Rightarrow> None
              | Some (Inr u, s2) \<Rightarrow> Some (Inr (), s2)
              | Some (Inl e, s2) \<Rightarrow> Some (fetch_one_except on_progress tot ep e s2)))"

text \<open>
  \<^verbatim>\<open>asyncio.gather\<close> over the tasks, modelled by running them to completion one after the
  other in the order of the list; the first exception that leaves a task leaves
  \<^verbatim>\<open>gather\<close>. Interleavings of the tasks at their suspension points are not modelled.
\<close>

fun gather ::
  "nat \<Rightarrow> 't transport \<Rightarrow> progress_cb \<Rightarrow> int \<Rightarrow> endpoint list \<Rightarrow> 't DataAggregator
     \<Rightarrow> ((exn + unit) \<times> 't DataAggregator) option" where
  "gather fuel get on_progress tot [] s = Some (Inr (), s)"
| "gather fuel get on_progress tot (ep # eps) s =
     (case fetch_one fuel get on_progress tot ep s of
        None \<Rightarrow> None
      | Some (Inl e, s1) \<Rightarrow> Some (Inl e, s1)
      | Some (Inr u, s1) \<Rightarrow> gather fuel get on_progress tot eps s1)"

definition fetch_all ::
  "nat \<Rightarrow> 't transport \<Rightarrow> progress_cb \<Rightarrow> endpoint list \<Rightarrow> 't DataAggregator
     \<Rightarrow> ((exn + AggregatedResult) \<times> 't DataAggregator) option" where
  "fetch_all fuel get on_progress endpoints s =
     (let start_time = clock s;
          s0 = s\<lparr>successful_d := Map.empty, failed_d := Map.empty, completed := 0\<rparr>;
          tot = int (length endpoints)
      in case gather fuel get on_progress tot endpoints s0 of
           None \<Rightarrow> None
         | Some (Inl e, s1) \<Rightarrow> Some (Inl e, s1)
         | Some (Inr u, s1) \<Rightarrow>
             Some (Inr \<lparr>successful = successful_d s1, failed = failed_d s1,
                        duration_seconds = clock s1 - start_time\<rparr>, s1))"

section \<open>Without MCP: the sliding-window rate limiter\<close>

record RateLimiter_nomcp =
  max_requests_nomcp :: int
  time_window_nomcp :: real
  requests :: "real list"

definition RateLimiter_init_nomcp :: "int \<Rightarrow> real \<Rightarrow> RateLimiter_nomcp" where
  "RateLimiter_init_nomcp maxr window =
     \<lparr>max_requests_nomcp = maxr, time_window_nomcp = window, requests = []\<rparr>"

text \<open>
  \<^verbatim>\<open>acquire\<close>: \<^verbatim>\<open>self._requests[0]\<close> raises \<^verbatim>\<open>IndexError\<close> on an empty list, which
  happens when \<^verbatim>\<open>max_requests\<close> is not positive. The list assignment made before stays.
\<close>

definition acquire_nomcp ::
  "real \<Rightarrow> RateLimiter_nomcp \<Rightarrow> (exn + unit) \<times> real \<times> RateLimiter_nomcp" where
  "acquire_nomcp now rl =
     (let reqs1 = filter (\<lambda>t. now - t < time_window_nomcp rl) (requests rl)
      in if int (length reqs1) \<ge> max_requests_nomcp rl then
           (case reqs1 of
              [] \<Rightarrow> (Inl IndexError, now, rl\<lparr>requests := reqs1\<rparr>)
            | oldest # _ \<Rightarrow>
                let wait_time = time_window_nomcp rl - (now - oldest)
                in if wait_time > 0 then
                     let now2 = sleep wait_time now;
                         reqs2 = filter (\<lambda>t. now2 - t < time_window_nomcp rl) reqs1
                     in (Inr (), now2, rl\<lparr>requests := reqs2 @ [now2]\<rparr>)
                   else (Inr (), now, rl\<lparr>requests := reqs1 @ [now]\<rparr>))
         else (Inr (), now, rl\<lparr>requests := reqs1 @ [now]\<rparr>))"

section \<open>Without MCP: the aggregator\<close>

record 't DataAggregator_nomcp =
  rate_limiter_nomcp :: RateLimiter_nomcp
  max_retries_nomcp :: int
  timeout_nomcp :: real
  circuit_breakers :: "endpoint \<rightharpoonup> CircuitBreaker_nomcp"
  cb_threshold :: int
  cb_recovery :: real
  fetcher_state :: 't
  clock_nomcp :: real
  trace_nomcp :: "event list"

text \<open>\<^verbatim>\<open>DataAggregator.__init__\<close>: no path raises.\<close>

definition DataAggregator_init_nomcp ::
  "real \<Rightarrow> 't \<Rightarrow> int \<Rightarrow> int \<Rightarrow> real \<Rightarrow> int \<Rightarrow> real \<Rightarrow> exn + 't DataAggregator_nomcp" where
  "DataAggregator_init_nomcp now fs max_requests_per_second retries timeout_seconds
       circuit_breaker_threshold circuit_breaker_recovery =
     Inr \<lparr>rate_limiter_nomcp = RateLimiter_init_nomcp max_requests_per_second 1,
          max_retries_nomcp = retries,
          timeout_nomcp = timeout_seconds,
          circuit_breakers = Map.empty,
          cb_threshold = circuit_breaker_threshold,
          cb_recovery = circuit_breaker_recovery,
          fetcher_state = fs, clock_nomcp = now, trace_nomcp = []\<rparr>"

definition log_ev_nomcp :: "event \<Rightarrow> 't DataAggregator_nomcp \<Rightarrow> 't DataAggregator_nomcp" where
  "log_ev_nomcp ev s = s\<lparr>trace_nomcp := trace_nomcp s @ [ev]\<rparr>"

definition get_circuit_breaker ::
  "endpoint \<Rightarrow> 't DataAggregator_nomcp \<Rightarrow> CircuitBreaker_nomcp \<times> 't DataAggregator_nomcp" where
  "get_circuit_breaker ep s =
     (case circuit_breakers s ep of
        None \<Rightarrow>
          let cb = CircuitBreaker_init_nomcp (cb_threshold s) (cb_recovery s)
          in (cb, s\<lparr>circuit_breakers := (circuit_breakers s)(ep \<mapsto> cb)\<rparr>)
      | Some cb \<Rightarrow> (cb, s))"

text \<open>
  The breaker object of an endpoint is shared through the dictionary, so a recording is
  an update of the dictionary's entry.
\<close>

definition cb_record_success :: "endpoint \<Rightarrow> 't DataAggregator_nomcp \<Rightarrow> 't DataAggregator_nomcp" where
  "cb_record_success ep s =
     log_ev_nomcp (RecordSuccess ep)
       (s\<lparr>circuit_breakers :=
            (circuit_breakers s)(ep := map_option record_success_nomcp (circuit_breakers s ep))\<rparr>)"

definition cb_record_failure :: "endpoint \<Rightarrow> 't DataAggregator_nomcp \<Rightarrow> 't DataAggregator_nomcp" where
  "cb_record_failure ep s =
     log_ev_nomcp (RecordFailure ep)
       (s\<lparr>circuit_breakers :=
            (circuit_breakers s)(ep := map_option (record_failure_nomcp (clock_nomcp s))
                                         (circuit_breakers s ep))\<rparr>)"

text \<open>
  The optional \<^verbatim>\<open>fetcher\<close> takes the endpoint only; without it \<^verbatim>\<open>_default_fetch\<close>
  answers after 0.01 seconds.
\<close>

type_synonym 't fetcher = "('t \<Rightarrow> endpoint \<Rightarrow> (real \<times> (exn + json)) \<times> 't) option"

definition default_fetch :: "'t \<Rightarrow> endpoint \<Rightarrow> (real \<times> (exn + json)) \<times> 't" where
  "default_fetch fs ep =
     ((1 / 100, Inr (JDict [(''url'', JStr ep), (''status'', JStr ''ok'')])), fs)"

text \<open>
  One pass through the body of the \<^verbatim>\<open>for attempt in range(self._max_retries)\<close> loop up
  to the back-off: \<open>Inr result\<close> when the attempt returned, \<open>Inl last_error\<close> when one of
  the two \<^verbatim>\<open>except\<close> clauses ran.
\<close>

definition attempt_nomcp ::
  "'t fetcher \<Rightarrow> endpoint \<Rightarrow> 't DataAggregator_nomcp \<Rightarrow> (string + json) \<times> 't DataAggregator_nomcp" where
  "attempt_nomcp fetcher ep s =
     (case acquire_nomcp (clock_nomcp s) (rate_limiter_nomcp s) of (r, now', rl') \<Rightarrow>
        let s1 = (log_ev_nomcp Acquire s)\<lparr>clock_nomcp := now', rate_limiter_nomcp := rl'\<rparr>
        in (case r of
              Inl e \<Rightarrow> (Inl (str_exn e), cb_record_failure ep s1)
            | Inr u \<Rightarrow>
               (case (case fetcher of None \<Rightarrow> default_fetch | Some f \<Rightarrow> f) (fetcher_state s1) ep of
                  (answer, fs') \<Rightarrow>
                   (case wait_for answer (timeout_nomcp s1) (clock_nomcp s1) of (res, now2) \<Rightarrow>
                      let s2 = (log_ev_nomcp (TransportCall ep) s1)
                                 \<lparr>fetcher_state := fs', clock_nomcp := now2\<rparr>
                      in (case res of
                            Inr result \<Rightarrow> (Inr result, cb_record_success ep s2)
                          | Inl TimeoutError \<Rightarrow> (Inl ''Timeout'', cb_record_failure ep s2)
                          | Inl e \<Rightarrow> (Inl (str_exn e), cb_record_failure ep s2))))))"

definition asyncio_sleep_nomcp :: "real \<Rightarrow> 't DataAggregator_nomcp \<Rightarrow> 't DataAggregator_nomcp" where
  "asyncio_sleep_nomcp d s = log_ev_nomcp (Sleep d) (s\<lparr>clock_nomcp := sleep d (clock_nomcp s)\<rparr>)"

text \<open>
  The \<^verbatim>\<open>for\<close> loop of \<^verbatim>\<open>fetch_one\<close> over the remaining attempt numbers, and the
  \<^verbatim>\<open>return endpoint, None, last_error\<close> after it. The back-off is computed outside the
  \<^verbatim>\<open>try\<close> statement, so its exception leaves \<^verbatim>\<open>fetch_one\<close>.
\<close>

type_synonym outcome_nomcp = "endpoint \<times> json \<times> string option"

fun attempts_nomcp ::
  "'t fetcher \<Rightarrow> endpoint \<Rightarrow> nat list \<Rightarrow> string option \<Rightarrow> 't DataAggregator_nomcp
     \<Rightarrow> (exn + outcome_nomcp) \<times> 't DataAggregator_nomcp" where
  "attempts_nomcp fetcher ep [] last_error s = (Inr (ep, JNone, last_error), s)"
| "attempts_nomcp fetcher ep (attempt # rest) last_error s =
     (case attempt_nomcp fetcher ep s of
        (Inr result, s1) \<Rightarrow> (Inr (ep, result, None), s1)
      | (Inl err, s1) \<Rightarrow>
          if int attempt < max_retries_nomcp s1 - 1 then
            (case backoff_delay (1 / 10) attempt of
               Inl overflow \<Rightarrow> (Inl overflow, s1)
             | Inr backoff \<Rightarrow>
                 attempts_nomcp fetcher ep rest (Some err) (asyncio_sleep_nomcp backoff s1))
          else attempts_nomcp fetcher ep rest (Some err) s1)"

definition fetch_one_nomcp ::
  "'t fetcher \<Rightarrow> endpoint \<Rightarrow> 't DataAggregator_nomcp
     \<Rightarrow> (exn + outcome_nomcp) \<times> 't DataAggregator_nomcp" where
  "fetch_one_nomcp fetcher ep s =
     (case get_circuit_breaker ep s of (cb, s1) \<Rightarrow>
        let s2 = log_ev_nomcp (BreakerCheck ep) s1
        in if \<not> is_available_nomcp (clock_nomcp s2) cb
           then (Inr (ep, JNone, Some ''Circuit breaker open''), s2)
           else attempts_nomcp fetcher ep [0..<nat (max_retries_nomcp s2)] None s2)"

text \<open>
  \<^verbatim>\<open>asyncio.gather\<close>, the tasks run one after the other in the order of the list; the
  first exception that leaves a task leaves \<^verbatim>\<open>gather\<close>.
\<close>

fun gather_nomcp ::
  "'t fetcher \<Rightarrow> endpoint list \<Rightarrow> 't DataAggregator_nomcp
     \<Rightarrow> (exn + outcome_nomcp list) \<times> 't DataAggregator_nomcp" where
  "gather_nomcp fetcher [] s = (Inr [], s)"
| "gather_nomcp fetcher (ep # eps) s =
     (case fetch_one_nomcp fetcher ep s of
        (Inl e, s1) \<Rightarrow> (Inl e, s1)
      | (Inr r, s1) \<Rightarrow>
          (case gather_nomcp fetcher eps s1 of
             (Inl e, s2) \<Rightarrow> (Inl e, s2)
           | (Inr rs, s2) \<Rightarrow> (Inr (r # rs), s2)))"

type_synonym progress_cb_nomcp = "(int \<Rightarrow> int \<Rightarrow> exn option) option"

text \<open>
  The loop over the results at the end of \<^verbatim>\<open>fetch_all\<close>; an exception of the callback
  leaves the loop.
\<close>

fun collect_nomcp ::
  "progress_cb_nomcp \<Rightarrow> int \<Rightarrow> outcome_nomcp list
     \<Rightarrow> (endpoint \<rightharpoonup> json) \<Rightarrow> (endpoint \<rightharpoonup> string) \<Rightarrow> int \<Rightarrow> 't DataAggregator_nomcp
     \<Rightarrow> (exn + (endpoint \<rightharpoonup> json) \<times> (endpoint \<rightharpoonup> string)) \<times> 't DataAggregator_nomcp" where
  "collect_nomcp on_progress tot [] succ fl done s = (Inr (succ, fl), s)"
| "collect_nomcp on_progress tot ((ep, result, error) # rest) succ fl done s =
     (let succ1 = (case error of None \<Rightarrow> succ(ep \<mapsto> result) | Some err \<Rightarrow> succ);
          fl1 = (case error of None \<Rightarrow> fl | Some err \<Rightarrow> fl(ep \<mapsto> err));
          done1 = done + 1
      in case on_progress of
           None \<Rightarrow> collect_nomcp on_progress tot rest succ1 fl1 done1 s
         | Some cb \<Rightarrow>
             (case cb done1 tot of
                None \<Rightarrow> collect_nomcp on_progress tot rest succ1 fl1 done1
                          (log_ev_nomcp (Progress_nomcp done1 tot) s)
              | Some e \<Rightarrow> (Inl e, log_ev_nomcp (Progress_nomcp done1 tot) s)))"

definition fetch_all_nomcp ::
  "'t fetcher \<Rightarrow> progress_cb_nomcp \<Rightarrow> endpoint list \<Rightarrow> 't DataAggregator_nomcp
     \<Rightarrow> (exn + AggregatedResult) \<times> 't DataAggregator_nomcp" where
  "fetch_all_nomcp fetcher on_progress endpoints s =
     (let start_time = clock_nomcp s;
          tot = int (length endpoints)
      in case gather_nomcp fetcher endpoints s of
           (Inl e, s1) \<Rightarrow> (Inl e, s1)
         | (Inr results, s1) \<Rightarrow>
           (case collect_nomcp on_progress tot results Map.empty Map.empty 0 s1 of
              (Inl e, s2) \<Rightarrow> (Inl e, s2)
            | (Inr (succ, fl), s2) \<Rightarrow>
                (Inr \<lparr>successful = succ, failed = fl,
                      duration_seconds = clock_nomcp s2 - start_time\<rparr>, s2)))"

section \<open>Vocabulary of the properties\<close>

text \<open>
  What the retry executor is expected to write to a probe for a run of failed attempts, the
  first of them with index \<open>attempt\<close>: each failure is followed by a sleep of
  \<open>base_delay * 2 ^ attempt\<close>.
\<close>

fun backoff_log :: "real \<Rightarrow> nat \<Rightarrow> exn list \<Rightarrow> 'a probe_event list" where
  "backoff_log base_delay attempt [] = []"
| "backoff_log base_delay attempt (e # es) =
     Called (Inl e) # Slept (base_delay * 2 ^ attempt) # backoff_log base_delay (Suc attempt) es"

fun is_Called :: "'a probe_event \<Rightarrow> bool" where
  "is_Called (Called r) = True"
| "is_Called (Slept d) = False"

text \<open>Kinds of trace events.\<close>

fun is_io :: "event \<Rightarrow> bool" where
  "is_io (TransportCall ep) = True"
| "is_io (Sleep d) = True"
| "is_io ev = False"

fun is_transport :: "event \<Rightarrow> bool" where
  "is_transport (TransportCall ep) = True"
| "is_transport ev = False"

fun is_recording :: "event \<Rightarrow> bool" where
  "is_recording (RecordSuccess ep) = True"
| "is_recording (RecordFailure ep) = True"
| "is_recording ev = False"

fun is_progress :: "event \<Rightarrow> bool" where
  "is_progress (Progress info) = True"
| "is_progress (Progress_nomcp c t) = True"
| "is_progress ev = False"

fun is_check :: "event \<Rightarrow> bool" where
  "is_check (BreakerCheck ep) = True"
| "is_check ev = False"

text \<open>
  \<open>gated evs\<close>: every transport call in \<open>evs\<close> comes directly after an \<^verbatim>\<open>acquire\<close> of
  its own.
\<close>

fun gated :: "event list \<Rightarrow> bool" where
  "gated [] = True"
| "gated (TransportCall ep # evs) = False"
| "gated (Acquire # TransportCall ep # evs) = gated evs"
| "gated (ev # evs) = gated evs"

text \<open>A progress callback that never raises (or no callback at all).\<close>

definition never_raises :: "progress_cb \<Rightarrow> bool" where
  "never_raises on_progress \<longleftrightarrow>
     (case on_progress of None \<Rightarrow> True | Some cb \<Rightarrow> \<forall>info. cb info = None)"

definition never_raises_nomcp :: "progress_cb_nomcp \<Rightarrow> bool" where
  "never_raises_nomcp on_progress \<longleftrightarrow>
     (case on_progress of None \<Rightarrow> True | Some cb \<Rightarrow> \<forall>c t. cb c t = None)"

text \<open>
  What a call of the progress callback with a report does: it returns, or it raises. A
  callback is quiet on failure when it does not raise on a report of a failure, and loud on
  failure, or on success, when it raises on every such report.
\<close>

definition progress_result :: "progress_cb \<Rightarrow> ProgressInfo \<Rightarrow> exn + unit" where
  "progress_result on_progress info =
     (case on_progress of
        None \<Rightarrow> Inr ()
      | Some cb \<Rightarrow> (case cb info of None \<Rightarrow> Inr () | Some e \<Rightarrow> Inl e))"






text \<open>
  \<open>io_only s s'\<close>: from \<open>s\<close> to \<open>s'\<close> only transport calls and sleeps were made; the
  clock did not go back.
\<close>

definition io_only :: "'t DataAggregator \<Rightarrow> 't DataAggregator \<Rightarrow> bool" where
  "io_only s s' \<longleftrightarrow>
     (\<exists>io. list_all is_io io \<and> trace s' = trace s @ io)
     \<and> rate_limiter s' = rate_limiter s \<and> timeout s' = timeout s
     \<and> max_retries s' = max_retries s \<and> circuit_breaker s' = circuit_breaker s
     \<and> successful_d s' = successful_d s \<and> failed_d s' = failed_d s
     \<and> completed s' = completed s \<and> clock s \<le> clock s'"

text \<open>\<open>progress_only s s'\<close>: from \<open>s\<close> to \<open>s'\<close> only the progress callback was called.\<close>

definition progress_only :: "'t DataAggregator \<Rightarrow> 't DataAggregator \<Rightarrow> bool" where
  "progress_only s s' \<longleftrightarrow> (\<exists>prog. list_all is_progress prog \<and> s' = s\<lparr>trace := trace s @ prog\<rparr>)"

text \<open>The failure count of an endpoint as \<^verbatim>\<open>record_failure\<close> reads it.\<close>

abbreviation count_of :: "CircuitBreaker \<Rightarrow> endpoint \<Rightarrow> int" where
  "count_of cb ep \<equiv> (case failure_counts cb ep of None \<Rightarrow> 0 | Some c \<Rightarrow> c)"

text \<open>
  What the loop of the aggregator without MCP writes to the trace for a run of failed
  attempts, the first with index \<open>attempt\<close>; each element of the list says whether that
  attempt reached the transport (it does not when \<^verbatim>\<open>acquire\<close> raised).
\<close>

fun failed_attempts_log :: "endpoint \<Rightarrow> int \<Rightarrow> nat \<Rightarrow> bool list \<Rightarrow> event list" where
  "failed_attempts_log ep retries attempt [] = []"
| "failed_attempts_log ep retries attempt (called # rest) =
     Acquire # (if called then [TransportCall ep] else []) @ RecordFailure ep
       # (if int attempt < retries - 1 then [Sleep (2 ^ attempt * (1 / 10))] else [])
       @ failed_attempts_log ep retries (Suc attempt) rest"

text \<open>
  A run of failed attempts of the loop without MCP: \<open>failed_attempts_nomcp f ep a s msgs s'\<close>
  says that, started in state \<open>s\<close>, the attempts with the indices \<open>a\<close>, \<open>a + 1\<close>, ... fail
  with the error texts \<open>msgs\<close>, each failed attempt is followed by a sleep of
  \<open>2 ^ index * 0.1\<close> seconds, and the state after the last of these sleeps is \<open>s'\<close>.
\<close>

inductive failed_attempts_nomcp ::
  "'t fetcher \<Rightarrow> endpoint \<Rightarrow> nat \<Rightarrow> 't DataAggregator_nomcp \<Rightarrow> string list
     \<Rightarrow> 't DataAggregator_nomcp \<Rightarrow> bool"
  for fetcher :: "'t fetcher" and ep :: endpoint where
    no_attempt: "failed_attempts_nomcp fetcher ep a s [] s"
  | failed_attempt:
      "attempt_nomcp fetcher ep s = (Inl msg, s1) \<Longrightarrow>
       failed_attempts_nomcp fetcher ep (Suc a) (asyncio_sleep_nomcp (2 ^ a * (1 / 10)) s1) msgs s' \<Longrightarrow>
       failed_attempts_nomcp fetcher ep a s (msg # msgs) s'"

fun is_sleep :: "event \<Rightarrow> bool" where
  "is_sleep (Sleep d) = True"
| "is_sleep ev = False"

fun is_acquire :: "event \<Rightarrow> bool" where
  "is_acquire Acquire = True"
| "is_acquire ev = False"

section \<open>Test fixtures of the repository\<close>

text \<open>
  The transports of the repository's tests: \<^verbatim>\<open>MockHttpClient\<close> answering
  \<^verbatim>\<open>{"data": "ok"}\<close>, the same with the URL in \<^verbatim>\<open>failures\<close>, with a delay of 10
  seconds, and the transport of \<^verbatim>\<open>test_retry_logic\<close> that fails on its first two calls.
  The state of a transport is what it remembers between calls.
\<close>

definition always_ok :: "unit transport" where
  "always_ok c url tmo = ((0, Inr (JDict [(''data'', JStr ''ok'')])), c)"

definition always_fails :: "unit transport" where
  "always_fails c url tmo = ((0, Inl (Exception (''Failed to fetch '' @ url))), c)"

definition too_slow :: "unit transport" where
  "too_slow c url tmo = ((10, Inr (JDict [(''data'', JStr ''ok'')])), c)"

definition flaky_client :: "nat transport" where
  "flaky_client c url tmo = (case flaky_get c of (r, c') \<Rightarrow> ((0, r), c'))"

definition fetcher_ok :: "unit \<Rightarrow> endpoint \<Rightarrow> (real \<times> (exn + json)) \<times> unit" where
  "fetcher_ok c url = ((0, Inr (JDict [(''data'', JStr url)])), c)"

definition fetcher_fails :: "unit \<Rightarrow> endpoint \<Rightarrow> (real \<times> (exn + json)) \<times> unit" where
  "fetcher_fails c url = ((0, Inl (Exception ''Always fails'')), c)"

definition fetcher_slow :: "unit \<Rightarrow> endpoint \<Rightarrow> (real \<times> (exn + json)) \<times> unit" where
  "fetcher_slow c url = ((5, Inr (JDict [(''data'', JStr url)])), c)"

definition flaky_fetcher :: "nat \<Rightarrow> endpoint \<Rightarrow> (real \<times> (exn + json)) \<times> nat" where
  "flaky_fetcher c url = (case flaky_get c of (r, c') \<Rightarrow> ((0, r), c'))"

text \<open>An attempt function that fails on every call.\<close>

definition always_raises :: "unit \<Rightarrow> (exn + json) \<times> unit" where
  "always_raises u = (Inl (Exception ''always fails''), u)"


text \<open>A progress callback that raises when it is told of a success.\<close>

definition raise_on_success :: "ProgressInfo \<Rightarrow> exn option" where
  "raise_on_success info = (if pi_success info then Some (Exception ''boom'') else None)"



text \<open>
  Aggregators as the tests build them, at time 0: rate limit, timeout, retries and the
  breaker's threshold and recovery time.
\<close>

definition aggregator :: "'t \<Rightarrow> int \<Rightarrow> real \<Rightarrow> int \<Rightarrow> int \<Rightarrow> real \<Rightarrow> 't DataAggregator" where
  "aggregator client rate_limit tmo retries threshold recovery =
     projr (DataAggregator_init 0 client rate_limit tmo retries
              (Some (CircuitBreaker_init threshold recovery)))"

definition aggregator_nomcp ::
  "'t \<Rightarrow> int \<Rightarrow> int \<Rightarrow> real \<Rightarrow> int \<Rightarrow> real \<Rightarrow> 't DataAggregator_nomcp" where
  "aggregator_nomcp fs rate_limit retries tmo threshold recovery =
     projr (DataAggregator_init_nomcp 0 fs rate_limit retries tmo threshold recovery)"

text \<open>The result of a \<^verbatim>\<open>fetch_all\<close> that returned, and the state after it.\<close>

definition result_of :: "((exn + AggregatedResult) \<times> 's) option \<Rightarrow> AggregatedResult option" where
  "result_of x = (case x of Some (Inr r, s) \<Rightarrow> Some r | _ \<Rightarrow> None)"

definition state_of :: "((exn + 'a) \<times> 's) option \<Rightarrow> 's option" where
  "state_of x = map_option snd x"

definition raised_by :: "((exn + 'a) \<times> 's) option \<Rightarrow> exn option" where
  "raised_by x = (case x of Some (Inl e, s) \<Rightarrow> Some e | _ \<Rightarrow> None)"

definition total_count :: "AggregatedResult \<Rightarrow> nat" where
  "total_count r = success_count r + failure_count_of r"

text \<open>
  \<^verbatim>\<open>MockHttpClient\<close> with a set of failing URLs, and a fetcher of the same kind for the
  aggregator without MCP.
\<close>

definition mock_client :: "endpoint list \<Rightarrow> unit transport" where
  "mock_client failures c url tmo =
     (if url \<in> set failures then ((0, Inl (Exception (''Failed to fetch '' @ url))), c)
      else ((0, Inr (JDict [(''data'', JStr ''ok'')])), c))"

definition mock_fetcher :: "endpoint list \<Rightarrow> unit \<Rightarrow> endpoint \<Rightarrow> (real \<times> (exn + json)) \<times> unit" where
  "mock_fetcher failures c url =
     (if url \<in> set failures then ((0, Inl (Exception ''Simulated failure'')), c)
      else ((0, Inr (JDict [(''data'', JStr url)])), c))"

definition failed_reason :: "AggregatedResult option \<Rightarrow> endpoint \<Rightarrow> string option" where
  "failed_reason r ep = (case r of None \<Rightarrow> None | Some res \<Rightarrow> failed res ep)"

text \<open>
  The state of a token bucket from which \<^verbatim>\<open>acquire\<close> is sure to return: a positive
  capacity and window, more than \<open>-1\<close> tokens, and a last refill that is not in the future.
\<close>

definition limiter_ok :: "real \<Rightarrow> RateLimiter \<Rightarrow> bool" where
  "limiter_ok now rl \<longleftrightarrow>
     max_requests rl \<ge> 1 \<and> time_window rl > 0 \<and> tokens rl > - 1 \<and> last_update rl \<le> now"

section \<open>Lemmas: the circuit breakers\<close>

lemma record_failures_snoc:
  "record_failures (ts @ [t]) cb ep = record_failure t (record_failures ts cb ep) ep"
  by (induction ts arbitrary: cb) simp_all

lemma record_failures_below:
  assumes "count_of cb ep + int (length ts) < failure_threshold cb"
  shows "count_of (record_failures ts cb ep) ep = count_of cb ep + int (length ts)
     \<and> states (record_failures ts cb ep) = states cb
     \<and> open_times (record_failures ts cb ep) = open_times cb
     \<and> failure_threshold (record_failures ts cb ep) = failure_threshold cb
     \<and> recovery_timeout (record_failures ts cb ep) = recovery_timeout cb"
  using assms
proof (induction ts arbitrary: cb)
  case Nil
  then show ?case by simp
next
  case (Cons t ts)
  let ?cb1 = "record_failure t cb ep"
  have 1: "count_of ?cb1 ep = count_of cb ep + 1"
    and 2: "states ?cb1 = states cb" "open_times ?cb1 = open_times cb"
      "failure_threshold ?cb1 = failure_threshold cb"
      "recovery_timeout ?cb1 = recovery_timeout cb"
    using Cons.prems by (auto simp: record_failure_def Let_def)
  have "count_of ?cb1 ep + int (length ts) < failure_threshold ?cb1"
    using Cons.prems 1 2 by simp
  from Cons.IH[OF this] show ?case using 1 2 by simp
qed

lemma record_failure_opens:
  assumes "count_of cb ep + 1 \<ge> failure_threshold cb"
  shows "states (record_failure t cb ep) ep = Some OPEN"
    and "open_times (record_failure t cb ep) ep = Some t"
    and "recovery_timeout (record_failure t cb ep) = recovery_timeout cb"
  using assms by (auto simp: record_failure_def Let_def)

lemma is_open_closed:
  "states cb ep = None \<or> states cb ep = Some CLOSED \<Longrightarrow> is_open now cb ep = (False, cb)"
  by (auto simp: is_open_def get_state_def)

lemma get_state_open:
  assumes "states cb ep = Some OPEN" "open_times cb ep = Some t"
  shows "get_state now cb ep =
    (if now - t \<ge> recovery_timeout cb
     then (HALF_OPEN, cb\<lparr>states := (states cb)(ep \<mapsto> HALF_OPEN)\<rparr>) else (OPEN, cb))"
  using assms by (simp add: get_state_def)

lemma record_success_resets:
  "failure_counts (record_success cb ep) ep = Some 0"
  "states (record_success cb ep) ep = Some CLOSED"
  by (simp_all add: record_success_def)

lemma record_failures_nomcp_snoc:
  "record_failures_nomcp (ts @ [t]) cb = record_failure_nomcp t (record_failures_nomcp ts cb)"
  by (induction ts arbitrary: cb) simp_all

lemma record_failures_nomcp_below:
  assumes "failure_count cb + int (length ts) < max_failures cb"
  shows "failure_count (record_failures_nomcp ts cb) = failure_count cb + int (length ts)
     \<and> state (record_failures_nomcp ts cb) = state cb
     \<and> max_failures (record_failures_nomcp ts cb) = max_failures cb
     \<and> recovery_time (record_failures_nomcp ts cb) = recovery_time cb"
  using assms
proof (induction ts arbitrary: cb)
  case Nil
  then show ?case by simp
next
  case (Cons t ts)
  let ?cb1 = "record_failure_nomcp t cb"
  have 1: "failure_count ?cb1 = failure_count cb + 1" "state ?cb1 = state cb"
      "max_failures ?cb1 = max_failures cb" "recovery_time ?cb1 = recovery_time cb"
    using Cons.prems by (auto simp: record_failure_nomcp_def Let_def)
  have "failure_count ?cb1 + int (length ts) < max_failures ?cb1"
    using Cons.prems 1 by simp
  from Cons.IH[OF this] show ?case using 1 by simp
qed

lemma record_failure_nomcp_opens:
  assumes "failure_count cb + 1 \<ge> max_failures cb"
  shows "state (record_failure_nomcp t cb) = OPEN_nomcp"
    and "last_failure_time (record_failure_nomcp t cb) = t"
    and "recovery_time (record_failure_nomcp t cb) = recovery_time cb"
  using assms by (auto simp: record_failure_nomcp_def Let_def)

text \<open>Every recorded failure counts, whatever the state of the breaker.\<close>

lemma record_failure_counts:
  "count_of (record_failure t cb ep) ep = count_of cb ep + 1"
  "failure_threshold (record_failure t cb ep) = failure_threshold cb"
  "recovery_timeout (record_failure t cb ep) = recovery_timeout cb"
  by (simp_all add: record_failure_def Let_def)

lemma record_failures_counts:
  "count_of (record_failures ts cb ep) ep = count_of cb ep + int (length ts)
     \<and> failure_threshold (record_failures ts cb ep) = failure_threshold cb
     \<and> recovery_timeout (record_failures ts cb ep) = recovery_timeout cb"
proof (induction ts arbitrary: cb)
  case Nil
  then show ?case by simp
next
  case (Cons t ts)
  from Cons.IH[of "record_failure t cb ep"] show ?case
    by (simp add: record_failure_counts)
qed

lemma record_failures_opens:
  assumes "failure_threshold cb \<le> count_of cb ep + int (length (ts @ [t]))"
  shows "states (record_failures (ts @ [t]) cb ep) ep = Some OPEN"
    and "open_times (record_failures (ts @ [t]) cb ep) ep = Some t"
    and "recovery_timeout (record_failures (ts @ [t]) cb ep) = recovery_timeout cb"
proof -
  let ?c = "record_failures ts cb ep"
  have "count_of ?c ep + 1 \<ge> failure_threshold ?c"
    using assms record_failures_counts[of ts cb ep] by simp
  from record_failure_opens[OF this, of t] record_failures_counts[of ts cb ep]
  show "states (record_failures (ts @ [t]) cb ep) ep = Some OPEN"
    and "open_times (record_failures (ts @ [t]) cb ep) ep = Some t"
    and "recovery_timeout (record_failures (ts @ [t]) cb ep) = recovery_timeout cb"
    by (simp_all add: record_failures_snoc)
qed

lemma record_failures_nomcp_counts:
  "failure_count (record_failures_nomcp ts cb) = failure_count cb + int (length ts)
     \<and> max_failures (record_failures_nomcp ts cb) = max_failures cb
     \<and> recovery_time (record_failures_nomcp ts cb) = recovery_time cb"
proof (induction ts arbitrary: cb)
  case Nil
  then show ?case by simp
next
  case (Cons t ts)
  from Cons.IH[of "record_failure_nomcp t cb"] show ?case
    by (simp add: record_failure_nomcp_def Let_def)
qed

lemma record_failures_nomcp_opens:
  assumes "max_failures cb \<le> failure_count cb + int (length (ts @ [t]))"
  shows "state (record_failures_nomcp (ts @ [t]) cb) = OPEN_nomcp"
    and "last_failure_time (record_failures_nomcp (ts @ [t]) cb) = t"
    and "recovery_time (record_failures_nomcp (ts @ [t]) cb) = recovery_time cb"
proof -
  let ?c = "record_failures_nomcp ts cb"
  have "failure_count ?c + 1 \<ge> max_failures ?c"
    using assms record_failures_nomcp_counts[of ts cb] by simp
  from record_failure_nomcp_opens[OF this, of t] record_failures_nomcp_counts[of ts cb]
  show "state (record_failures_nomcp (ts @ [t]) cb) = OPEN_nomcp"
    and "last_failure_time (record_failures_nomcp (ts @ [t]) cb) = t"
    and "recovery_time (record_failures_nomcp (ts @ [t]) cb) = recovery_time cb"
    by (simp_all add: record_failures_nomcp_snoc)
qed
section \<open>Lemmas: the token bucket\<close>

lemma wait_for_token_ready:
  "tokens rl > 0 \<Longrightarrow> wait_for_token fuel now rl = Some (Inr (), now, rl)"
  by (cases fuel) simp_all

lemma acquire_ready:
  "tokens rl > 0 \<Longrightarrow> acquire fuel now rl = Some (Inr (), now, rl\<lparr>tokens := tokens rl - 1\<rparr>)"
  by (simp add: acquire_def wait_for_token_ready)

lemma limiter_ok_mono: "limiter_ok now rl \<Longrightarrow> now \<le> now' \<Longrightarrow> limiter_ok now' rl"
  by (simp add: limiter_ok_def)

lemma refill_ok:
  assumes "limiter_ok now rl"
  shows "\<exists>rl1. refill now rl = Inr rl1 \<and> limiter_ok now rl1 \<and> last_update rl1 = now
           \<and> max_requests rl1 = max_requests rl \<and> time_window rl1 = time_window rl"
proof -
  let ?rate = "real_of_int (max_requests rl) / time_window rl"
  let ?x = "min (real_of_int (max_requests rl)) (tokens rl + (now - last_update rl) * ?rate)"
  from assms have mi: "max_requests rl \<ge> 1" and w: "time_window rl > 0"
    and t: "tokens rl > - 1" and l: "last_update rl \<le> now"
    by (simp_all add: limiter_ok_def)
  from mi have m: "real_of_int (max_requests rl) \<ge> 1" by simp
  have "?rate \<ge> 0" using m w by simp
  then have "(now - last_update rl) * ?rate \<ge> 0" using l by (intro mult_nonneg_nonneg) simp_all
  then have x: "?x > - 1" using m t by (simp add: min_def)
  have r: "refill now rl = Inr (rl\<lparr>tokens := ?x, last_update := now\<rparr>)"
    using w by (simp add: refill_def Let_def)
  have "limiter_ok now (rl\<lparr>tokens := ?x, last_update := now\<rparr>)"
    unfolding limiter_ok_def using mi w x by simp
  with r show ?thesis by simp
qed

lemma wait_for_token_ok:
  assumes "limiter_ok now rl"
  shows "\<exists>now' rl'. wait_for_token (Suc fuel) now rl = Some (Inr (), now', rl')
           \<and> now \<le> now' \<and> tokens rl' > 0 \<and> limiter_ok now' rl'"
proof (cases "tokens rl \<le> 0")
  case False
  with assms show ?thesis by simp
next
  case True
  from refill_ok[OF assms] obtain rl1 where
    r1: "refill now rl = Inr rl1" "limiter_ok now rl1" "last_update rl1 = now"
      "max_requests rl1 = max_requests rl" "time_window rl1 = time_window rl" by blast
  show ?thesis
  proof (cases "tokens rl1 \<le> 0")
    case False
    then have "wait_for_token fuel now rl1 = Some (Inr (), now, rl1)"
      by (simp add: wait_for_token_ready)
    with True r1 False show ?thesis by simp
  next
    case neg: True
    let ?wait = "time_window rl1 / real_of_int (max_requests rl1)"
    let ?now2 = "sleep ?wait now"
    from r1(2) have m: "real_of_int (max_requests rl1) \<ge> 1" and w: "time_window rl1 > 0"
      and t: "tokens rl1 > - 1" by (simp_all add: limiter_ok_def)
    then have m0: "max_requests rl1 \<noteq> 0" by auto
    have wpos: "?wait > 0" using m w by simp
    then have now2: "?now2 = now + ?wait" by (simp add: sleep_def)
    have "now \<le> ?now2" using wpos now2 by linarith
    with r1(2) have ok2: "limiter_ok ?now2 rl1" by (rule limiter_ok_mono)
    from refill_ok[OF ok2] obtain rl2 where
      r2: "refill ?now2 rl1 = Inr rl2" "limiter_ok ?now2 rl2" by blast
    have one: "(?now2 - last_update rl1) * (real_of_int (max_requests rl1) / time_window rl1) = 1"
      using r1(3) now2 m w by simp
    from r2(1) have "tokens rl2 = min (real_of_int (max_requests rl1)) (tokens rl1 + 1)"
      using w one by (auto simp: refill_def Let_def)
    then have pos: "tokens rl2 > 0" using m t by (simp add: min_def)
    then have "wait_for_token fuel ?now2 rl2 = Some (Inr (), ?now2, rl2)"
      by (simp add: wait_for_token_ready)
    with True r1(1) neg m0 r2 pos wpos now2 show ?thesis by (simp add: Let_def)
  qed
qed

lemma acquire_ok:
  assumes "limiter_ok now rl" "fuel \<ge> 1"
  shows "\<exists>now' rl'. acquire fuel now rl = Some (Inr (), now', rl') \<and> now \<le> now'
           \<and> limiter_ok now' rl'"
proof -
  from assms(2) obtain f where f: "fuel = Suc f" by (cases fuel) auto
  from wait_for_token_ok[OF assms(1), of f] obtain now' rl' where
    w: "wait_for_token (Suc f) now rl = Some (Inr (), now', rl')" "now \<le> now'"
      "tokens rl' > 0" "limiter_ok now' rl'" by blast
  then show ?thesis unfolding f
    by (intro exI[of _ now'] exI[of _ "rl'\<lparr>tokens := tokens rl' - 1\<rparr>"])
       (simp add: acquire_def limiter_ok_def)
qed


section \<open>Lemmas: the aggregator with MCP\<close>

lemma calls_backoff_log: "length (filter is_Called (backoff_log b a es)) = length es"
  by (induction es arbitrary: a) simp_all

lemma backoff_delay_simps:
  "attempt < 1024 \<Longrightarrow> backoff_delay b attempt = Inr (b * 2 ^ attempt)"
  "1024 \<le> attempt \<Longrightarrow> backoff_delay b attempt = Inl OverflowError"
  by (simp_all add: backoff_delay_def)

text \<open>
  The probe's log of a run of the loop from attempt \<open>a\<close> on: failed invocations, each
  followed by its sleep, and a last invocation with result \<open>rl\<close>. Either \<open>rl\<close> is the
  result of the loop (a success, or the failure of the last attempt), or \<open>rl\<close> is a failure
  at an index from 1024 on with attempts remaining, and the loop ends with
  \<open>OverflowError\<close>.
\<close>

lemma retry_attempts_probe:
  assumes "a < nat M"
    and "retry_attempts probe_sleep (probe_call func) M b [a..<nat M] lst (evs0, s) = (r, evs, s')"
  shows "\<exists>errs rl. a + length errs < nat M \<and> evs = evs0 @ backoff_log b a errs @ [Called rl]
            \<and> (errs \<noteq> [] \<longrightarrow> a + length errs \<le> 1024) \<and> (\<exists>sl. rl = fst (func sl))
            \<and> ((r = rl \<and> (isl r \<longrightarrow> a + length errs = nat M - 1))
               \<or> (isl rl \<and> r = Inl OverflowError \<and> 1024 \<le> a + length errs
                    \<and> a + length errs < nat M - 1))"
  using assms
proof (induction "nat M - a" arbitrary: a evs0 s lst)
  case 0
  then show ?case by simp
next
  case (Suc k)
  have upt: "[a..<nat M] = a # [Suc a..<nat M]" using Suc.prems(1) by (simp add: upt_conv_Cons)
  obtain r0 s0 where f: "func s = (r0, s0)" by (cases "func s")
  show ?case
  proof (cases r0)
    case (Inr v)
    with Suc.prems(2) f upt have "r = Inr v" "evs = evs0 @ [Called r]"
      by (auto simp: probe_call_def)
    then show ?thesis using Suc.prems(1) f Inr
      by (intro exI[of _ "[]"] exI[of _ r]) (auto intro: exI[of _ s])
  next
    case (Inl e)
    show ?thesis
    proof (cases "Suc a < nat M")
      case True
      then have lt: "int a < M - 1" by linarith
      show ?thesis
      proof (cases "a < 1024")
        case small: True
        have k: "k = nat M - Suc a" using Suc.hyps(2) by simp
        from Suc.prems(2) f upt Inl lt small
        have "retry_attempts probe_sleep (probe_call func) M b [Suc a..<nat M] (Some e)
                (evs0 @ [Called (Inl e), Slept (b * 2 ^ a)], s0) = (r, evs, s')"
          by (simp add: probe_call_def probe_sleep_def backoff_delay_simps)
        from Suc.hyps(1)[OF k True this] obtain errs rl where
          e: "Suc a + length errs < nat M"
            "evs = (evs0 @ [Called (Inl e), Slept (b * 2 ^ a)]) @ backoff_log b (Suc a) errs @ [Called rl]"
            "errs \<noteq> [] \<longrightarrow> Suc a + length errs \<le> 1024" "\<exists>sl. rl = fst (func sl)"
            "(r = rl \<and> (isl r \<longrightarrow> Suc a + length errs = nat M - 1))
               \<or> (isl rl \<and> r = Inl OverflowError \<and> 1024 \<le> Suc a + length errs
                    \<and> Suc a + length errs < nat M - 1)" by blast
        have b: "a + length (e # errs) \<le> 1024" using e(3) small by (cases errs) simp_all
        show ?thesis
          using e(1,2,4,5) b by (intro exI[of _ "e # errs"] exI[of _ rl]) simp
      next
        case False
        then have big: "1024 \<le> a" by simp
        from Suc.prems(2) f upt Inl lt big
        have "r = Inl OverflowError" "evs = evs0 @ [Called (Inl e)]"
          by (auto simp: probe_call_def backoff_delay_simps)
        moreover have "a < nat M - 1" using True by simp
        ultimately show ?thesis using Suc.prems(1) big f Inl
          by (intro exI[of _ "[]"] exI[of _ "Inl e"]) (auto intro: exI[of _ s])
      qed
    next
      case False
      then have lastf: "[Suc a..<nat M] = []" "\<not> int a < M - 1" "a = nat M - 1"
        using Suc.prems(1) by simp_all
      from Suc.prems(2) f upt Inl lastf(1,2)
      have "r = Inl e" "evs = evs0 @ [Called r]"
        by (auto simp: probe_call_def)
      then show ?thesis using Suc.prems(1) lastf(3) f Inl
        by (intro exI[of _ "[]"] exI[of _ r]) (auto intro: exI[of _ s])
    qed
  qed
qed

lemma sleep_mono: "now \<le> sleep d now"
  by (simp add: sleep_def)

lemma io_only_refl: "io_only s s"
  unfolding io_only_def by (auto intro: exI[of _ "[]"])

lemma io_only_trans: "io_only s s1 \<Longrightarrow> io_only s1 s2 \<Longrightarrow> io_only s s2"
  unfolding io_only_def
  by (elim conjE exE, intro conjI) (auto simp: list_all_append intro!: exI)

lemma io_only_sleep: "io_only s (asyncio_sleep d s)"
  unfolding io_only_def asyncio_sleep_def log_ev_def
  by (auto simp: sleep_mono intro: exI[of _ "[Sleep d]"])

lemma io_only_fetch_endpoint: "fetch_endpoint get ep s = (r, s') \<Longrightarrow> io_only s s'"
  unfolding io_only_def fetch_endpoint_def log_ev_def wait_for_def
  by (auto simp: sleep_mono split: prod.splits if_splits intro: exI[of _ "[TransportCall ep]"])

lemma retry_attempts_io_only:
  "retry_attempts asyncio_sleep (fetch_endpoint get ep) M b atts lst s = (r, s') \<Longrightarrow> io_only s s'"
proof (induction atts arbitrary: lst s)
  case Nil
  then show ?case by (auto simp: io_only_refl split: option.splits)
next
  case (Cons a atts)
  obtain r0 s0 where f: "fetch_endpoint get ep s = (r0, s0)" by (cases "fetch_endpoint get ep s")
  then have 0: "io_only s s0" by (rule io_only_fetch_endpoint)
  show ?case
  proof (cases r0)
    case (Inr v)
    with Cons.prems f 0 show ?thesis by simp
  next
    case (Inl e)
    show ?thesis
    proof (cases "int a < M - 1 \<and> 1024 \<le> a")
      case True
      with Cons.prems f Inl have "s' = s0" by (simp add: backoff_delay_simps)
      with 0 show ?thesis by simp
    next
      case False
      let ?s1 = "if int a < M - 1 then asyncio_sleep (b * 2 ^ a) s0 else s0"
      have 1: "io_only s0 ?s1" by (simp add: io_only_sleep io_only_refl)
      from Cons.prems f Inl False
      have "retry_attempts asyncio_sleep (fetch_endpoint get ep) M b atts (Some e) ?s1 = (r, s')"
        by (auto simp: backoff_delay_simps)
      from Cons.IH[OF this] have "io_only ?s1 s'" .
      with 0 1 show ?thesis by (blast intro: io_only_trans)
    qed
  qed
qed

lemma retry_with_backoff_io_only:
  "retry_with_backoff asyncio_sleep (fetch_endpoint get ep) M b s = (r, s') \<Longrightarrow> io_only s s'"
  unfolding retry_with_backoff_def by (rule retry_attempts_io_only)

lemma call_progress_effect:
  assumes "call_progress on_progress info s = (r, s')"
  shows "progress_only s s'" and "never_raises on_progress \<Longrightarrow> r = Inr ()"
    and "r \<noteq> Inr () \<Longrightarrow> \<not> never_raises on_progress"
proof -
  show "progress_only s s'"
  proof (cases on_progress)
    case None
    with assms have "s' = s\<lparr>trace := trace s @ []\<rparr>" by (simp add: call_progress_def)
    then show ?thesis unfolding progress_only_def by (intro exI[of _ "[]"]) simp
  next
    case (Some cb)
    with assms have "s' = s\<lparr>trace := trace s @ [Progress info]\<rparr>"
      by (auto simp: call_progress_def log_ev_def split: option.splits)
    then show ?thesis unfolding progress_only_def by (intro exI[of _ "[Progress info]"]) simp
  qed
  show "never_raises on_progress \<Longrightarrow> r = Inr ()"
    using assms by (auto simp: call_progress_def never_raises_def split: option.splits)
  then show "r \<noteq> Inr () \<Longrightarrow> \<not> never_raises on_progress" by blast
qed

lemma fetch_one_except_effect:
  assumes "fetch_one_except on_progress tot ep e s = (r, s')"
  shows "progress_only
           (s\<lparr>failed_d := (failed_d s)(ep \<mapsto> str_exn e),
              circuit_breaker := record_failure (clock s) (circuit_breaker s) ep,
              trace := trace s @ [RecordFailure ep],
              completed := completed s + 1\<rparr>) s'"
    and "never_raises on_progress \<Longrightarrow> r = Inr ()"
  using assms call_progress_effect(1,2)[of on_progress _ _ r s']
  by (auto simp: fetch_one_except_def Let_def log_ev_def)

lemma fetch_one_try_cases:
  assumes "fetch_one_try fuel get on_progress tot ep s = Some (r, s')"
  obtains
    (acquire_raised) e now' rl' where
      "acquire fuel (clock s) (rate_limiter s) = Some (Inl e, now', rl')"
      "r = Inl e" "s' = s\<lparr>trace := trace s @ [Acquire], clock := now', rate_limiter := rl'\<rparr>"
  | (retry_raised) e now' rl' where
      "acquire fuel (clock s) (rate_limiter s) = Some (Inr (), now', rl')"
      "r = Inl e"
      "retry_with_backoff asyncio_sleep (fetch_endpoint get ep) (max_retries s) (1 / 10)
         (s\<lparr>trace := trace s @ [Acquire], clock := now', rate_limiter := rl'\<rparr>) = (Inl e, s')"
  | (succeeded) data now' rl' s2 where
      "acquire fuel (clock s) (rate_limiter s) = Some (Inr (), now', rl')"
      "retry_with_backoff asyncio_sleep (fetch_endpoint get ep) (max_retries s) (1 / 10)
         (s\<lparr>trace := trace s @ [Acquire], clock := now', rate_limiter := rl'\<rparr>) = (Inr data, s2)"
      "progress_only
         (s2\<lparr>successful_d := (successful_d s2)(ep \<mapsto> data),
             circuit_breaker := record_success (circuit_breaker s2) ep,
             trace := trace s2 @ [RecordSuccess ep],
             completed := completed s2 + 1\<rparr>) s'"
      "never_raises on_progress \<longrightarrow> r = Inr ()"
proof -
  from assms obtain ra now' rl' where
    acq: "acquire fuel (clock s) (rate_limiter s) = Some (ra, now', rl')"
    by (auto simp: fetch_one_try_def split: option.splits)
  let ?s1 = "s\<lparr>trace := trace s @ [Acquire], clock := now', rate_limiter := rl'\<rparr>"
  have s1: "(log_ev Acquire s)\<lparr>clock := now', rate_limiter := rl'\<rparr> = ?s1" by (simp add: log_ev_def)
  show thesis
  proof (cases ra)
    case (Inl e)
    with assms acq s1 have "r = Inl e" "s' = ?s1" by (simp_all add: fetch_one_try_def log_ev_def)
    with acq Inl show thesis by (intro acquire_raised[of e now' rl']) simp_all
  next
    case (Inr u)
    obtain rr s2 where
      retry: "retry_with_backoff asyncio_sleep (fetch_endpoint get ep) (max_retries s) (1 / 10) ?s1
                = (rr, s2)"
      by (cases "retry_with_backoff asyncio_sleep (fetch_endpoint get ep) (max_retries s) (1 / 10) ?s1")
    show thesis
    proof (cases rr)
      case (Inl e)
      with assms acq Inr s1 retry have "r = Inl e" "s' = s2" by (simp_all add: fetch_one_try_def log_ev_def)
      with acq Inr retry Inl show thesis by (intro retry_raised[of now' rl' e]) simp_all
    next
      case data: (Inr data)
      let ?s5 = "s2\<lparr>successful_d := (successful_d s2)(ep \<mapsto> data),
             circuit_breaker := record_success (circuit_breaker s2) ep,
             trace := trace s2 @ [RecordSuccess ep],
             completed := completed s2 + 1\<rparr>"
      from assms acq Inr s1 retry data
      have cp: "call_progress on_progress (ProgressInfo (completed s2 + 1) tot ep True None) ?s5
                  = (r, s')"
        by (simp add: fetch_one_try_def Let_def log_ev_def)
      from call_progress_effect(1,2)[OF cp] acq Inr retry data
      show thesis by (intro succeeded[of now' rl' data s2]) simp_all
    qed
  qed
qed

lemma fetch_one_cases:
  assumes "fetch_one fuel get on_progress tot ep s = Some (r, s')"
  obtains
    (short_circuit) cb' where
      "is_open (clock s) (circuit_breaker s) ep = (True, cb')"
      "progress_only
         (s\<lparr>circuit_breaker := cb', trace := trace s @ [BreakerCheck ep],
            failed_d := (failed_d s)(ep \<mapsto> ''Circuit breaker open''),
            completed := completed s + 1\<rparr>) s'"
      "never_raises on_progress \<longrightarrow> r = Inr ()"
  | (failure) cb' e io prog where
      "is_open (clock s) (circuit_breaker s) ep = (False, cb')"
      "list_all is_io io" "list_all is_progress prog"
      "trace s' = trace s @ BreakerCheck ep # Acquire # io @ RecordFailure ep # prog"
      "failed_d s' = (failed_d s)(ep \<mapsto> str_exn e)" "successful_d s' = successful_d s"
      "never_raises on_progress \<longrightarrow> r = Inr ()"
      "circuit_breaker s' = record_failure (clock s') cb' ep"
  | (success) cb' data io prog where
      "is_open (clock s) (circuit_breaker s) ep = (False, cb')"
      "list_all is_io io" "list_all is_progress prog"
      "trace s' = trace s @ BreakerCheck ep # Acquire # io @ RecordSuccess ep # prog"
      "successful_d s' = (successful_d s)(ep \<mapsto> data)" "failed_d s' = failed_d s"
      "r = Inr ()"
  | (callback_raised) cb' data e io p1 p2 where
      "is_open (clock s) (circuit_breaker s) ep = (False, cb')"
      "\<not> never_raises on_progress"
      "list_all is_io io" "list_all is_progress p1" "list_all is_progress p2"
      "trace s' = trace s @ BreakerCheck ep # Acquire # io @ RecordSuccess ep # p1
                    @ RecordFailure ep # p2"
      "successful_d s' = (successful_d s)(ep \<mapsto> data)"
      "failed_d s' = (failed_d s)(ep \<mapsto> str_exn e)"
proof -
  obtain opn cb' where io: "is_open (clock s) (circuit_breaker s) ep = (opn, cb')"
    by (cases "is_open (clock s) (circuit_breaker s) ep")
  let ?s1 = "s\<lparr>circuit_breaker := cb', trace := trace s @ [BreakerCheck ep]\<rparr>"
  have s1: "log_ev (BreakerCheck ep) (s\<lparr>circuit_breaker := cb'\<rparr>) = ?s1" by (simp add: log_ev_def)
  show thesis
  proof (cases opn)
    case True
    let ?s3 = "s\<lparr>circuit_breaker := cb', trace := trace s @ [BreakerCheck ep],
            failed_d := (failed_d s)(ep \<mapsto> ''Circuit breaker open''),
            completed := completed s + 1\<rparr>"
    from assms io True
    have cp: "call_progress on_progress
                (ProgressInfo (completed s + 1) tot ep False (Some ''Circuit breaker open'')) ?s3
              = (r, s')"
      by (simp add: fetch_one_def Let_def log_ev_def)
    from call_progress_effect(1,2)[OF cp] io True show thesis
      by (intro short_circuit[of cb']) simp_all
  next
    case False
    from assms io False s1 obtain rt s2 where
      t: "fetch_one_try fuel get on_progress tot ep ?s1 = Some (rt, s2)"
      by (auto simp: fetch_one_def Let_def split: option.splits)
    have exc: "\<And>e. rt = Inl e \<Longrightarrow> fetch_one_except on_progress tot ep e s2 = (r, s')"
      using assms io False s1 t by (simp add: fetch_one_def Let_def)
    have ok: "rt = Inr () \<Longrightarrow> r = Inr () \<and> s' = s2"
      using assms io False s1 t by (simp add: fetch_one_def Let_def)
    from t show thesis
    proof (cases rule: fetch_one_try_cases)
      case (acquire_raised e now' rl')
      from fetch_one_except_effect[OF exc[OF acquire_raised(2)]]
      obtain prog where p: "list_all is_progress prog"
        "s' = (s2\<lparr>failed_d := (failed_d s2)(ep \<mapsto> str_exn e),
              circuit_breaker := record_failure (clock s2) (circuit_breaker s2) ep,
              trace := trace s2 @ [RecordFailure ep],
              completed := completed s2 + 1\<rparr>)\<lparr>trace := (trace s2 @ [RecordFailure ep]) @ prog\<rparr>"
        and nr: "never_raises on_progress \<longrightarrow> r = Inr ()"
        unfolding progress_only_def by auto
      show thesis
        using io False p nr acquire_raised(3)
        by (intro failure[of cb' "[]" prog e]) simp_all
    next
      case (retry_raised e now' rl')
      from retry_with_backoff_io_only[OF retry_raised(3)]
      obtain io' where i: "list_all is_io io'" "trace s2 = (trace s @ [BreakerCheck ep, Acquire]) @ io'"
        and keep: "successful_d s2 = successful_d s" "failed_d s2 = failed_d s"
          "circuit_breaker s2 = cb'"
        unfolding io_only_def by auto
      from fetch_one_except_effect[OF exc[OF retry_raised(2)]]
      obtain prog where p: "list_all is_progress prog"
        "s' = (s2\<lparr>failed_d := (failed_d s2)(ep \<mapsto> str_exn e),
              circuit_breaker := record_failure (clock s2) (circuit_breaker s2) ep,
              trace := trace s2 @ [RecordFailure ep],
              completed := completed s2 + 1\<rparr>)\<lparr>trace := (trace s2 @ [RecordFailure ep]) @ prog\<rparr>"
        and nr: "never_raises on_progress \<longrightarrow> r = Inr ()"
        unfolding progress_only_def by auto
      show thesis
        using io False p nr i keep
        by (intro failure[of cb' io' prog e]) simp_all
    next
      case (succeeded data now' rl' s3)
      from retry_with_backoff_io_only[OF succeeded(2)]
      obtain io' where i: "list_all is_io io'" "trace s3 = (trace s @ [BreakerCheck ep, Acquire]) @ io'"
        and keep: "successful_d s3 = successful_d s" "failed_d s3 = failed_d s"
        unfolding io_only_def by auto
      from succeeded(3) obtain p1 where p1: "list_all is_progress p1"
        "s2 = (s3\<lparr>successful_d := (successful_d s3)(ep \<mapsto> data),
             circuit_breaker := record_success (circuit_breaker s3) ep,
             trace := trace s3 @ [RecordSuccess ep],
             completed := completed s3 + 1\<rparr>)\<lparr>trace := (trace s3 @ [RecordSuccess ep]) @ p1\<rparr>"
        unfolding progress_only_def by auto
      show thesis
      proof (cases rt)
        case (Inr u)
        with ok have "r = Inr ()" "s' = s2" by simp_all
        then show thesis using io False i keep p1
          by (intro success[of cb' io' p1 data]) simp_all
      next
        case (Inl e)
        with succeeded(4) have nn: "\<not> never_raises on_progress" by auto
        from fetch_one_except_effect[OF exc[OF Inl]]
        obtain p2 where p2: "list_all is_progress p2"
          "s' = (s2\<lparr>failed_d := (failed_d s2)(ep \<mapsto> str_exn e),
              circuit_breaker := record_failure (clock s2) (circuit_breaker s2) ep,
              trace := trace s2 @ [RecordFailure ep],
              completed := completed s2 + 1\<rparr>)\<lparr>trace := (trace s2 @ [RecordFailure ep]) @ p2\<rparr>"
          unfolding progress_only_def by auto
        show thesis using io False i keep p1 p2 nn
          by (intro callback_raised[of cb' io' p1 p2 data e]) simp_all
      qed
    qed
  qed
qed

section \<open>Lemmas: the aggregator without MCP\<close>

lemma attempt_nomcp_cases:
  assumes "attempt_nomcp fetcher ep s = (r, s')"
  obtains
    (acquire_raised) err where
      "r = Inl err"
      "trace_nomcp s' = trace_nomcp s @ [Acquire, RecordFailure ep]"
      "circuit_breakers s' = (circuit_breakers s)
          (ep := map_option (record_failure_nomcp (clock_nomcp s')) (circuit_breakers s ep))"
      "fetcher_state s' = fetcher_state s"
  | (transport_failed) err where
      "r = Inl err"
      "trace_nomcp s' = trace_nomcp s @ [Acquire, TransportCall ep, RecordFailure ep]"
      "circuit_breakers s' = (circuit_breakers s)
          (ep := map_option (record_failure_nomcp (clock_nomcp s')) (circuit_breakers s ep))"
  | (transport_ok) result where
      "r = Inr result"
      "trace_nomcp s' = trace_nomcp s @ [Acquire, TransportCall ep, RecordSuccess ep]"
      "circuit_breakers s' = (circuit_breakers s)
          (ep := map_option record_success_nomcp (circuit_breakers s ep))"
proof -
  obtain ra now' rl' where acq: "acquire_nomcp (clock_nomcp s) (rate_limiter_nomcp s) = (ra, now', rl')"
    by (cases "acquire_nomcp (clock_nomcp s) (rate_limiter_nomcp s)")
  show thesis
  proof (cases ra)
    case (Inl e)
    with assms acq show thesis
      by (intro acquire_raised[of "str_exn e"])
         (auto simp: attempt_nomcp_def Let_def log_ev_nomcp_def cb_record_failure_def)
  next
    case (Inr u)
    let ?s1 = "(log_ev_nomcp Acquire s)\<lparr>clock_nomcp := now', rate_limiter_nomcp := rl'\<rparr>"
    obtain answer fs' where f: "(case fetcher of None \<Rightarrow> default_fetch | Some f \<Rightarrow> f) (fetcher_state s) ep = (answer, fs')"
      by (cases "(case fetcher of None \<Rightarrow> default_fetch | Some f \<Rightarrow> f) (fetcher_state s) ep")
    obtain res now2 where w: "wait_for answer (timeout_nomcp s) now' = (res, now2)"
      by (cases "wait_for answer (timeout_nomcp s) now'")
    show thesis
    proof (cases res)
      case res: (Inr result)
      with assms acq Inr f w show thesis
        by (intro transport_ok[of result])
           (auto simp: attempt_nomcp_def Let_def log_ev_nomcp_def cb_record_success_def)
    next
      case res: (Inl e)
      with assms acq Inr f w show thesis
        by (intro transport_failed[of "if e = TimeoutError then ''Timeout'' else str_exn e"])
           (auto simp: attempt_nomcp_def Let_def log_ev_nomcp_def cb_record_failure_def split: exn.splits)
    qed
  qed
qed

lemma acquire_nomcp_keeps:
  assumes "acquire_nomcp now rl = (r, now', rl')"
  shows "now \<le> now'" "max_requests_nomcp rl' = max_requests_nomcp rl"
    "time_window_nomcp rl' = time_window_nomcp rl"
    "max_requests_nomcp rl \<ge> 1 \<Longrightarrow> r = Inr ()"
  using assms
  by (auto simp: acquire_nomcp_def Let_def sleep_def split: if_splits list.splits)

lemma wait_for_mono: "wait_for answer tmo now = (r, now') \<Longrightarrow> now \<le> now'"
  by (auto simp: wait_for_def sleep_def split: prod.splits if_splits)

lemma attempt_nomcp_keeps:
  assumes "attempt_nomcp fetcher ep s = (r, s')"
  shows "max_retries_nomcp s' = max_retries_nomcp s" "timeout_nomcp s' = timeout_nomcp s"
    "cb_threshold s' = cb_threshold s" "cb_recovery s' = cb_recovery s"
    "clock_nomcp s \<le> clock_nomcp s'"
    "max_requests_nomcp (rate_limiter_nomcp s') = max_requests_nomcp (rate_limiter_nomcp s)"
proof -
  obtain ra now' rl' where acq: "acquire_nomcp (clock_nomcp s) (rate_limiter_nomcp s) = (ra, now', rl')"
    by (cases "acquire_nomcp (clock_nomcp s) (rate_limiter_nomcp s)")
  note k = acquire_nomcp_keeps(1,2)[OF acq]
  obtain answer fs' where f: "(case fetcher of None \<Rightarrow> default_fetch | Some f \<Rightarrow> f) (fetcher_state s) ep = (answer, fs')"
    by (cases "(case fetcher of None \<Rightarrow> default_fetch | Some f \<Rightarrow> f) (fetcher_state s) ep")
  obtain res now2 where w: "wait_for answer (timeout_nomcp s) now' = (res, now2)"
    by (cases "wait_for answer (timeout_nomcp s) now'")
  note m = wait_for_mono[OF w]
  from assms acq f w k m
  show "max_retries_nomcp s' = max_retries_nomcp s" "timeout_nomcp s' = timeout_nomcp s"
    "cb_threshold s' = cb_threshold s" "cb_recovery s' = cb_recovery s"
    "clock_nomcp s \<le> clock_nomcp s'"
    "max_requests_nomcp (rate_limiter_nomcp s') = max_requests_nomcp (rate_limiter_nomcp s)"
    by (auto simp: attempt_nomcp_def Let_def log_ev_nomcp_def cb_record_failure_def
          cb_record_success_def split: sum.splits exn.splits)
qed

text \<open>
  The trace of the loop from attempt \<open>a\<close> on: a run of failed attempts, and then a
  successful attempt, or nothing more when the attempts are exhausted, or a failed attempt
  without a sleep when the back-off overflows.
\<close>

lemma attempts_nomcp_trace:
  assumes "attempts_nomcp fetcher ep [a..<nat M] lst s = (r, s')"
    and "max_retries_nomcp s = M" and "a \<le> nat M"
  shows "max_retries_nomcp s' = M \<and>
     (\<exists>fails.
        (\<exists>res. r = Inr (ep, res, None) \<and> a + length fails < nat M \<and>
           trace_nomcp s' = trace_nomcp s @ failed_attempts_log ep M a fails
                              @ [Acquire, TransportCall ep, RecordSuccess ep])
      \<or> (\<exists>err. r = Inr (ep, JNone, err) \<and> a + length fails = nat M
           \<and> (fails = [] \<longrightarrow> err = lst) \<and> (fails \<noteq> [] \<longrightarrow> err \<noteq> None)
           \<and> trace_nomcp s' = trace_nomcp s @ failed_attempts_log ep M a fails)
      \<or> (\<exists>called. r = Inl OverflowError \<and> 1024 \<le> a + length fails
           \<and> a + length fails < nat M - 1
           \<and> trace_nomcp s' = trace_nomcp s @ failed_attempts_log ep M a fails
                  @ Acquire # (if called then [TransportCall ep] else []) @ [RecordFailure ep]))"
  using assms
proof (induction "nat M - a" arbitrary: a s lst)
  case 0
  then have "[a..<nat M] = []" by simp
  with "0.prems" have "r = Inr (ep, JNone, lst)" "s' = s" by simp_all
  with "0.prems" "0.hyps" show ?case by (intro conjI exI[of _ "[]"]) simp_all
next
  case (Suc k)
  then have lt: "a < nat M" by simp
  have upt: "[a..<nat M] = a # [Suc a..<nat M]" using lt by (simp add: upt_conv_Cons)
  obtain r0 s0 where at: "attempt_nomcp fetcher ep s = (r0, s0)"
    by (cases "attempt_nomcp fetcher ep s")
  note keep = attempt_nomcp_keeps(1)[OF at]
  show ?case
  proof (cases r0)
    case (Inr result)
    with Suc.prems(1) upt at have e: "r = Inr (ep, result, None)" "s' = s0" by simp_all
    from at Inr have "trace_nomcp s0 = trace_nomcp s @ [Acquire, TransportCall ep, RecordSuccess ep]"
      by (cases rule: attempt_nomcp_cases) simp_all
    with e lt keep Suc.prems(2) show ?thesis by (intro conjI exI[of _ "[]"]) simp_all
  next
    case (Inl msg)
    from at Inl obtain called where
      tr: "trace_nomcp s0 = trace_nomcp s @ Acquire # (if called then [TransportCall ep] else [])
                              @ [RecordFailure ep]"
    proof (cases rule: attempt_nomcp_cases)
      case (acquire_raised err)
      then show ?thesis by (intro that[of False]) simp
    next
      case (transport_failed err)
      then show ?thesis by (intro that[of True]) simp
    next
      case (transport_ok result)
      with Inl show ?thesis by simp
    qed
    show ?thesis
    proof (cases "int a < M - 1 \<and> 1024 \<le> a")
      case True
      with Suc.prems(1) upt at Inl keep Suc.prems(2)
      have e: "r = Inl OverflowError" "s' = s0" by (simp_all add: backoff_delay_simps)
      have "a < nat M - 1" using True by linarith
      with e tr True keep Suc.prems(2) show ?thesis
        by (intro conjI exI[of _ "[]"] disjI2 exI[of _ called]) simp_all
    next
      case False
      let ?s1 = "if int a < M - 1 then asyncio_sleep_nomcp (2 ^ a * (1 / 10)) s0 else s0"
      have s1: "max_retries_nomcp ?s1 = M"
        "trace_nomcp ?s1 = trace_nomcp s @ failed_attempts_log ep M a [called]"
        using tr keep Suc.prems(2) by (simp_all add: asyncio_sleep_nomcp_def log_ev_nomcp_def)
      from Suc.prems(1) upt at Inl keep Suc.prems(2) False
      have rec: "attempts_nomcp fetcher ep [Suc a..<nat M] (Some msg) ?s1 = (r, s')"
        by (auto simp: backoff_delay_simps)
      have k: "k = nat M - Suc a" using Suc.hyps(2) by simp
      from Suc.hyps(1)[OF k rec s1(1)] lt obtain fails where
        f: "max_retries_nomcp s' = M"
        "(\<exists>res. r = Inr (ep, res, None) \<and> Suc a + length fails < nat M \<and>
             trace_nomcp s' = trace_nomcp ?s1 @ failed_attempts_log ep M (Suc a) fails
                                @ [Acquire, TransportCall ep, RecordSuccess ep])
        \<or> (\<exists>err. r = Inr (ep, JNone, err) \<and> Suc a + length fails = nat M
             \<and> (fails = [] \<longrightarrow> err = Some msg) \<and> (fails \<noteq> [] \<longrightarrow> err \<noteq> None)
             \<and> trace_nomcp s' = trace_nomcp ?s1 @ failed_attempts_log ep M (Suc a) fails)
        \<or> (\<exists>called. r = Inl OverflowError \<and> 1024 \<le> Suc a + length fails
             \<and> Suc a + length fails < nat M - 1
             \<and> trace_nomcp s' = trace_nomcp ?s1 @ failed_attempts_log ep M (Suc a) fails
                  @ Acquire # (if called then [TransportCall ep] else []) @ [RecordFailure ep])"
        by auto
      from f(2) show ?thesis
      proof (elim disjE exE conjE)
        fix res
        assume "r = Inr (ep, res, None)" "Suc a + length fails < nat M"
          "trace_nomcp s' = trace_nomcp ?s1 @ failed_attempts_log ep M (Suc a) fails
                                @ [Acquire, TransportCall ep, RecordSuccess ep]"
        then show ?thesis using f(1) s1(2)
          by (intro conjI exI[of _ "called # fails"] disjI1 exI[of _ res]) simp_all
      next
        fix err
        assume "r = Inr (ep, JNone, err)" "Suc a + length fails = nat M"
          "fails = [] \<longrightarrow> err = Some msg" "fails \<noteq> [] \<longrightarrow> err \<noteq> None"
          "trace_nomcp s' = trace_nomcp ?s1 @ failed_attempts_log ep M (Suc a) fails"
        then show ?thesis using f(1) s1(2)
          by (intro conjI exI[of _ "called # fails"] disjI2 disjI1 exI[of _ err]) auto
      next
        fix called'
        assume "r = Inl OverflowError" "1024 \<le> Suc a + length fails"
          "Suc a + length fails < nat M - 1"
          "trace_nomcp s' = trace_nomcp ?s1 @ failed_attempts_log ep M (Suc a) fails
                  @ Acquire # (if called' then [TransportCall ep] else []) @ [RecordFailure ep]"
        then show ?thesis using f(1) s1(2)
          by (intro conjI exI[of _ "called # fails"] disjI2 exI[of _ called']) simp_all
      qed
    qed
  qed
qed

lemma gated_Acquire: "gated ys \<Longrightarrow> gated (Acquire # ys)"
proof (cases ys)
  case Nil
  then show ?thesis by simp
next
  case (Cons y zs)
  assume "gated ys"
  with Cons show ?thesis by (cases y) simp_all
qed

lemma gated_append: "gated xs \<Longrightarrow> gated ys \<Longrightarrow> gated (xs @ ys)"
  by (induction xs rule: gated.induct) (simp_all add: gated_Acquire)

lemma gated_failed_attempts_log: "gated (failed_attempts_log ep M a fails)"
  by (induction fails arbitrary: a) simp_all

lemma filter_failed_attempts_log:
  "filter is_check (failed_attempts_log ep M a fails) = []"
  "filter is_recording (failed_attempts_log ep M a fails) = replicate (length fails) (RecordFailure ep)"
  "filter is_acquire (failed_attempts_log ep M a fails) = replicate (length fails) Acquire"
  "filter is_progress (failed_attempts_log ep M a fails) = []"
  by (induction fails arbitrary: a; simp)+

lemma filter_none: "list_all P xs \<Longrightarrow> (\<And>x. P x \<Longrightarrow> \<not> Q x) \<Longrightarrow> filter Q xs = []"
  by (induction xs) auto

lemma io_not:
  "is_io x \<Longrightarrow> \<not> is_check x" "is_io x \<Longrightarrow> \<not> is_recording x" "is_io x \<Longrightarrow> \<not> is_acquire x"
  "is_io x \<Longrightarrow> \<not> is_progress x"
  by (cases x; simp)+

lemma progress_not:
  "is_progress x \<Longrightarrow> \<not> is_check x" "is_progress x \<Longrightarrow> \<not> is_recording x"
  "is_progress x \<Longrightarrow> \<not> is_acquire x" "is_progress x \<Longrightarrow> \<not> is_transport x"
  "is_progress x \<Longrightarrow> \<not> is_io x"
  by (cases x; simp)+

lemma fetch_one_nomcp_trace:
  assumes "fetch_one_nomcp fetcher ep s = (r, s')"
  shows
     "(\<not> is_available_nomcp (clock_nomcp s) (fst (get_circuit_breaker ep s))
        \<and> r = Inr (ep, JNone, Some ''Circuit breaker open'')
        \<and> s' = (snd (get_circuit_breaker ep s))
                 \<lparr>trace_nomcp := trace_nomcp s @ [BreakerCheck ep]\<rparr>)
      \<or> (is_available_nomcp (clock_nomcp s) (fst (get_circuit_breaker ep s)) \<and>
          (\<exists>fails.
             (\<exists>res. r = Inr (ep, res, None) \<and> length fails < nat (max_retries_nomcp s) \<and>
                trace_nomcp s' = trace_nomcp s @ BreakerCheck ep
                   # failed_attempts_log ep (max_retries_nomcp s) 0 fails
                   @ [Acquire, TransportCall ep, RecordSuccess ep])
           \<or> (\<exists>err. r = Inr (ep, JNone, err) \<and> length fails = nat (max_retries_nomcp s)
                \<and> (fails = [] \<longleftrightarrow> err = None)
                \<and> trace_nomcp s' = trace_nomcp s @ BreakerCheck ep
                   # failed_attempts_log ep (max_retries_nomcp s) 0 fails)
           \<or> (\<exists>called. r = Inl OverflowError \<and> 1024 \<le> length fails
                \<and> length fails < nat (max_retries_nomcp s) - 1
                \<and> trace_nomcp s' = trace_nomcp s @ BreakerCheck ep
                   # failed_attempts_log ep (max_retries_nomcp s) 0 fails
                   @ Acquire # (if called then [TransportCall ep] else []) @ [RecordFailure ep])))"
proof -
  obtain cb s1 where g: "get_circuit_breaker ep s = (cb, s1)" by (cases "get_circuit_breaker ep s")
  then have s1: "trace_nomcp s1 = trace_nomcp s" "max_retries_nomcp s1 = max_retries_nomcp s"
    "clock_nomcp s1 = clock_nomcp s"
    by (auto simp: get_circuit_breaker_def Let_def split: option.splits)
  let ?s2 = "log_ev_nomcp (BreakerCheck ep) s1"
  have s2: "trace_nomcp ?s2 = trace_nomcp s @ [BreakerCheck ep]"
    "max_retries_nomcp ?s2 = max_retries_nomcp s" "clock_nomcp ?s2 = clock_nomcp s"
    using s1 by (simp_all add: log_ev_nomcp_def)
  show ?thesis
  proof (cases "is_available_nomcp (clock_nomcp s) cb")
    case False
    with assms g s1 s2 show ?thesis
      by (auto simp: fetch_one_nomcp_def Let_def log_ev_nomcp_def)
  next
    case True
    with assms g s2
    have "attempts_nomcp fetcher ep [0..<nat (max_retries_nomcp s)] None ?s2 = (r, s')"
      by (simp add: fetch_one_nomcp_def Let_def)
    from attempts_nomcp_trace[OF this s2(2)] obtain fails where
      f: "(\<exists>res. r = Inr (ep, res, None) \<and> 0 + length fails < nat (max_retries_nomcp s) \<and>
           trace_nomcp s' = trace_nomcp ?s2 @ failed_attempts_log ep (max_retries_nomcp s) 0 fails
                              @ [Acquire, TransportCall ep, RecordSuccess ep])
      \<or> (\<exists>err. r = Inr (ep, JNone, err) \<and> 0 + length fails = nat (max_retries_nomcp s)
           \<and> (fails = [] \<longrightarrow> err = None) \<and> (fails \<noteq> [] \<longrightarrow> err \<noteq> None)
           \<and> trace_nomcp s' = trace_nomcp ?s2 @ failed_attempts_log ep (max_retries_nomcp s) 0 fails)
      \<or> (\<exists>called. r = Inl OverflowError \<and> 1024 \<le> 0 + length fails
           \<and> 0 + length fails < nat (max_retries_nomcp s) - 1
           \<and> trace_nomcp s' = trace_nomcp ?s2 @ failed_attempts_log ep (max_retries_nomcp s) 0 fails
                  @ Acquire # (if called then [TransportCall ep] else []) @ [RecordFailure ep])"
      by auto
    have av: "is_available_nomcp (clock_nomcp s) (fst (get_circuit_breaker ep s))"
      using True g by simp
    from f show ?thesis
    proof (elim disjE exE conjE)
      fix res
      assume "r = Inr (ep, res, None)" "0 + length fails < nat (max_retries_nomcp s)"
        "trace_nomcp s' = trace_nomcp ?s2 @ failed_attempts_log ep (max_retries_nomcp s) 0 fails
                              @ [Acquire, TransportCall ep, RecordSuccess ep]"
      then have "\<exists>res. r = Inr (ep, res, None) \<and> length fails < nat (max_retries_nomcp s) \<and>
                trace_nomcp s' = trace_nomcp s @ BreakerCheck ep
                   # failed_attempts_log ep (max_retries_nomcp s) 0 fails
                   @ [Acquire, TransportCall ep, RecordSuccess ep]"
        using s2(1) by (intro exI[of _ res]) simp
      then show ?thesis
        by - (rule disjI2, rule conjI[OF av], rule exI[of _ fails], erule disjI1)
    next
      fix err
      assume "r = Inr (ep, JNone, err)" "0 + length fails = nat (max_retries_nomcp s)"
        "fails = [] \<longrightarrow> err = None" "fails \<noteq> [] \<longrightarrow> err \<noteq> None"
        "trace_nomcp s' = trace_nomcp ?s2 @ failed_attempts_log ep (max_retries_nomcp s) 0 fails"
      then have "\<exists>err. r = Inr (ep, JNone, err) \<and> length fails = nat (max_retries_nomcp s)
                \<and> (fails = [] \<longleftrightarrow> err = None)
                \<and> trace_nomcp s' = trace_nomcp s @ BreakerCheck ep
                   # failed_attempts_log ep (max_retries_nomcp s) 0 fails"
        using s2(1) by (intro exI[of _ err]) auto
      then show ?thesis
        by - (rule disjI2, rule conjI[OF av], rule exI[of _ fails], rule disjI2, erule disjI1)
    next
      fix called
      assume "r = Inl OverflowError" "1024 \<le> 0 + length fails"
        "0 + length fails < nat (max_retries_nomcp s) - 1"
        "trace_nomcp s' = trace_nomcp ?s2 @ failed_attempts_log ep (max_retries_nomcp s) 0 fails
                  @ Acquire # (if called then [TransportCall ep] else []) @ [RecordFailure ep]"
      then have "\<exists>called. r = Inl OverflowError \<and> 1024 \<le> length fails
                \<and> length fails < nat (max_retries_nomcp s) - 1
                \<and> trace_nomcp s' = trace_nomcp s @ BreakerCheck ep
                   # failed_attempts_log ep (max_retries_nomcp s) 0 fails
                   @ Acquire # (if called then [TransportCall ep] else []) @ [RecordFailure ep]"
        using s2(1) by (intro exI[of _ called]) simp
      then show ?thesis
        by - (rule disjI2, rule conjI[OF av], rule exI[of _ fails], rule disjI2, erule disjI2)
    qed
  qed
qed

text \<open>
  The loop from attempt \<open>a\<close> on, as a run: failed attempts, each followed by its sleep,
  and a last attempt, made in state \<open>sk\<close>, whose end state is the end state of the loop.
\<close>

lemma attempts_nomcp_run:
  assumes "attempts_nomcp fetcher ep [a..<nat M] lst s = (res, s')"
    and "max_retries_nomcp s = M" and "a < nat M"
  shows "\<exists>msgs sk rl. failed_attempts_nomcp fetcher ep a s msgs sk
           \<and> attempt_nomcp fetcher ep sk = (rl, s')
           \<and> a + length msgs < nat M \<and> (msgs \<noteq> [] \<longrightarrow> a + length msgs \<le> 1024)
           \<and> ((\<exists>v. rl = Inr v \<and> res = Inr (ep, v, None))
              \<or> (\<exists>msg. rl = Inl msg \<and> a + length msgs = nat M - 1
                    \<and> res = Inr (ep, JNone, Some msg))
              \<or> (\<exists>msg. rl = Inl msg \<and> 1024 \<le> a + length msgs \<and> a + length msgs < nat M - 1
                    \<and> res = Inl OverflowError))"
  using assms
proof (induction "nat M - a" arbitrary: a s lst)
  case 0
  then show ?case by simp
next
  case (Suc k)
  have upt: "[a..<nat M] = a # [Suc a..<nat M]" using Suc.prems(3) by (simp add: upt_conv_Cons)
  obtain r0 s0 where at: "attempt_nomcp fetcher ep s = (r0, s0)"
    by (cases "attempt_nomcp fetcher ep s")
  note keep = attempt_nomcp_keeps(1)[OF at]
  show ?case
  proof (cases r0)
    case (Inr v)
    with Suc.prems(1) upt at have "res = Inr (ep, v, None)" "s' = s0" by simp_all
    with at Inr Suc.prems(3) show ?thesis
      by (intro exI[of _ "[]"] exI[of _ s] exI[of _ r0]) (simp add: no_attempt)
  next
    case (Inl msg)
    show ?thesis
    proof (cases "Suc a < nat M")
      case True
      then have lt: "int a < M - 1" by linarith
      show ?thesis
      proof (cases "a < 1024")
        case small: True
        let ?s1 = "asyncio_sleep_nomcp (2 ^ a * (1 / 10)) s0"
        have s1: "max_retries_nomcp ?s1 = M"
          using keep Suc.prems(2) by (simp add: asyncio_sleep_nomcp_def log_ev_nomcp_def)
        from Suc.prems(1) upt at Inl keep Suc.prems(2) lt small
        have rec: "attempts_nomcp fetcher ep [Suc a..<nat M] (Some msg) ?s1 = (res, s')"
          by (simp add: backoff_delay_simps mult.commute)
        have k: "k = nat M - Suc a" using Suc.hyps(2) by simp
        from Suc.hyps(1)[OF k rec s1 True] obtain msgs sk rl where
          r: "failed_attempts_nomcp fetcher ep (Suc a) ?s1 msgs sk"
            "attempt_nomcp fetcher ep sk = (rl, s')"
            "Suc a + length msgs < nat M" "msgs \<noteq> [] \<longrightarrow> Suc a + length msgs \<le> 1024"
            "(\<exists>v. rl = Inr v \<and> res = Inr (ep, v, None))
              \<or> (\<exists>m. rl = Inl m \<and> Suc a + length msgs = nat M - 1
                    \<and> res = Inr (ep, JNone, Some m))
              \<or> (\<exists>m. rl = Inl m \<and> 1024 \<le> Suc a + length msgs \<and> Suc a + length msgs < nat M - 1
                    \<and> res = Inl OverflowError)"
          by blast
        have run: "failed_attempts_nomcp fetcher ep a s (msg # msgs) sk"
          using at Inl r(1) by (intro failed_attempt[of fetcher ep s msg s0]) simp_all
        have b: "a + length (msg # msgs) \<le> 1024" using r(4) small by (cases msgs) simp_all
        show ?thesis
          using run r(2,3,5) b
          by (intro exI[of _ "msg # msgs"] exI[of _ sk] exI[of _ rl]) simp
      next
        case False
        then have big: "1024 \<le> a" by simp
        from Suc.prems(1) upt at Inl keep Suc.prems(2) lt big
        have "res = Inl OverflowError" "s' = s0" by (simp_all add: backoff_delay_simps)
        moreover have "a < nat M - 1" using True by simp
        ultimately show ?thesis using at Inl Suc.prems(3) big
          by (intro exI[of _ "[]"] exI[of _ s] exI[of _ r0]) (simp add: no_attempt)
      qed
    next
      case False
      then have lastf: "[Suc a..<nat M] = []" "\<not> int a < M - 1" "a = nat M - 1"
        using Suc.prems(3) by simp_all
      from Suc.prems(1) upt at Inl keep Suc.prems(2) lastf(1,2)
      have "res = Inr (ep, JNone, Some msg)" "s' = s0" by simp_all
      then show ?thesis using at Inl Suc.prems(3) lastf(3)
        by (intro exI[of _ "[]"] exI[of _ s] exI[of _ r0]) (simp add: no_attempt)
    qed
  qed
qed
section \<open>Evaluation of the fixtures\<close>

lemmas w_eval = fetch_all_def gather.simps fetch_one_def fetch_one_try_def fetch_one_except_def
  call_progress_def fetch_endpoint_def wait_for_def asyncio_sleep_def log_ev_def sleep_def
  retry_with_backoff_def acquire_def refill_def is_open_def get_state_def record_success_def
  record_failure_def DataAggregator_init_def RateLimiter_init_def CircuitBreaker_init_def
  aggregator_def Let_def upt_conv_Cons result_of_def state_of_def raised_by_def backoff_delay_def

lemmas n_eval = fetch_all_nomcp_def fetch_one_nomcp_def
  attempt_nomcp_def acquire_nomcp_def get_circuit_breaker_def
  cb_record_success_def cb_record_failure_def record_success_nomcp_def record_failure_nomcp_def
  is_available_nomcp_def CircuitBreaker_init_nomcp_def RateLimiter_init_nomcp_def
  DataAggregator_init_nomcp_def aggregator_nomcp_def asyncio_sleep_nomcp_def log_ev_nomcp_def
  wait_for_def sleep_def Let_def upt_conv_Cons result_of_def state_of_def raised_by_def
  backoff_delay_def

section \<open>Lemmas: the result dictionaries\<close>

lemma fetch_one_dicts:
  assumes "fetch_one fuel get on_progress tot ep s = Some (r, s')" and "never_raises on_progress"
  shows "r = Inr ()"
    and "(\<exists>d. successful_d s' = (successful_d s)(ep \<mapsto> d) \<and> failed_d s' = failed_d s)
       \<or> (\<exists>m. failed_d s' = (failed_d s)(ep \<mapsto> m) \<and> successful_d s' = successful_d s)"
proof -
  from assms(1) have "r = Inr () \<and>
      ((\<exists>d. successful_d s' = (successful_d s)(ep \<mapsto> d) \<and> failed_d s' = failed_d s)
       \<or> (\<exists>m. failed_d s' = (failed_d s)(ep \<mapsto> m) \<and> successful_d s' = successful_d s))"
  proof (cases rule: fetch_one_cases)
    case (short_circuit cb')
    then show ?thesis using assms(2) unfolding progress_only_def by auto
  next
    case (failure cb' e io prog)
    then show ?thesis using assms(2) by auto
  next
    case (success cb' data io prog)
    then show ?thesis by auto
  next
    case (callback_raised cb' data e io p1 p2)
    then show ?thesis using assms(2) by simp
  qed
  then show "r = Inr ()"
    and "(\<exists>d. successful_d s' = (successful_d s)(ep \<mapsto> d) \<and> failed_d s' = failed_d s)
       \<or> (\<exists>m. failed_d s' = (failed_d s)(ep \<mapsto> m) \<and> successful_d s' = successful_d s)"
    by simp_all
qed

lemma fetch_one_doms:
  assumes "fetch_one fuel get on_progress tot ep s = Some (r, s')" and "never_raises on_progress"
  shows "(dom (successful_d s') = insert ep (dom (successful_d s)) \<and> dom (failed_d s') = dom (failed_d s))
       \<or> (dom (failed_d s') = insert ep (dom (failed_d s)) \<and> dom (successful_d s') = dom (successful_d s))"
  using fetch_one_dicts(2)[OF assms] by (elim disjE exE conjE) simp_all

lemma part_step:
  assumes "ep \<notin> E" "E \<inter> (A \<union> B) = {}" "ep \<notin> A" "ep \<notin> B" "A \<inter> B = {}"
    and "(A' = insert ep A \<and> B' = B) \<or> (B' = insert ep B \<and> A' = A)"
  shows "E \<inter> (A' \<union> B') = {} \<and> A' \<inter> B' = {}"
  using assms by blast

lemma gather_dicts:
  assumes "never_raises on_progress"
  shows "gather fuel get on_progress tot eps s = Some (r, s') \<Longrightarrow>
     r = Inr ()
     \<and> dom (successful_d s') \<union> dom (failed_d s')
          = dom (successful_d s) \<union> dom (failed_d s) \<union> set eps
     \<and> (distinct eps \<longrightarrow> set eps \<inter> (dom (successful_d s) \<union> dom (failed_d s)) = {} \<longrightarrow>
          dom (successful_d s) \<inter> dom (failed_d s) = {} \<longrightarrow>
          dom (successful_d s') \<inter> dom (failed_d s') = {})"
proof (induction eps arbitrary: s)
  case Nil
  then show ?case by simp
next
  case (Cons ep eps)
  from Cons.prems obtain r1 s1 where f: "fetch_one fuel get on_progress tot ep s = Some (r1, s1)"
    by (cases "fetch_one fuel get on_progress tot ep s") auto
  from fetch_one_dicts(1)[OF f assms] Cons.prems f
  have g: "gather fuel get on_progress tot eps s1 = Some (r, s')" by simp
  note ih = Cons.IH[OF g]
  note d = fetch_one_doms[OF f assms]
  have 1: "r = Inr ()" using ih by simp
  have 2: "dom (successful_d s') \<union> dom (failed_d s')
          = dom (successful_d s) \<union> dom (failed_d s) \<union> set (ep # eps)"
  proof -
    from d have "dom (successful_d s1) \<union> dom (failed_d s1)
            = dom (successful_d s) \<union> dom (failed_d s) \<union> {ep}" by blast
    with ih show ?thesis by auto
  qed
  have 3: "dom (successful_d s') \<inter> dom (failed_d s') = {}"
    if q: "distinct (ep # eps)" "set (ep # eps) \<inter> (dom (successful_d s) \<union> dom (failed_d s)) = {}"
      "dom (successful_d s) \<inter> dom (failed_d s) = {}"
  proof -
    from q have q': "distinct eps" "ep \<notin> set eps"
      "set eps \<inter> (dom (successful_d s) \<union> dom (failed_d s)) = {}"
      "ep \<notin> dom (successful_d s)" "ep \<notin> dom (failed_d s)"
      by simp_all
    from part_step[OF q'(2) q'(3) q'(4) q'(5) q(3) d]
    have "set eps \<inter> (dom (successful_d s1) \<union> dom (failed_d s1)) = {}"
      "dom (successful_d s1) \<inter> dom (failed_d s1) = {}" by simp_all
    with ih q'(1) show ?thesis by simp
  qed
  from 1 2 3 show ?case by blast
qed

lemma fetch_one_nomcp_endpoint:
  "fetch_one_nomcp fetcher ep s = (Inr (ep', v, err), s') \<Longrightarrow> ep' = ep"
  using fetch_one_nomcp_trace[of fetcher ep s "Inr (ep', v, err)" s'] by auto

lemma gather_nomcp_endpoints:
  "gather_nomcp fetcher eps s = (Inr rs, s') \<Longrightarrow> map fst rs = eps"
proof (induction eps arbitrary: s rs s')
  case Nil
  then show ?case by auto
next
  case (Cons ep eps)
  from Cons.prems obtain ep' v err s1 where
    f: "fetch_one_nomcp fetcher ep s = (Inr (ep', v, err), s1)"
    by (cases "fetch_one_nomcp fetcher ep s") (auto split: sum.splits)
  from Cons.prems f obtain rs1 where
    g: "gather_nomcp fetcher eps s1 = (Inr rs1, s')" "rs = (ep', v, err) # rs1"
    by (cases "gather_nomcp fetcher eps s1") (auto split: sum.splits)
  from fetch_one_nomcp_endpoint[OF f] Cons.IH[OF g(1)] g(2) show ?case by simp
qed

lemma collect_nomcp_step:
  assumes "collect_nomcp on_progress tot ((ep, v, err) # rs) succ fl c s = (Inr (succ', fl'), s')"
  shows "\<exists>s1. collect_nomcp on_progress tot rs
                 (case err of None \<Rightarrow> succ(ep \<mapsto> v) | Some e \<Rightarrow> succ)
                 (case err of None \<Rightarrow> fl | Some e \<Rightarrow> fl(ep \<mapsto> e)) (c + 1) s1
               = (Inr (succ', fl'), s')"
  using assms by (auto simp: Let_def split: option.splits)

lemma collect_nomcp_dicts:
  "collect_nomcp on_progress tot rs succ fl c s = (Inr (succ', fl'), s') \<Longrightarrow>
     dom succ' \<union> dom fl' = dom succ \<union> dom fl \<union> set (map fst rs)
     \<and> (distinct (map fst rs) \<longrightarrow> set (map fst rs) \<inter> (dom succ \<union> dom fl) = {} \<longrightarrow>
          dom succ \<inter> dom fl = {} \<longrightarrow> dom succ' \<inter> dom fl' = {})"
proof (induction rs arbitrary: succ fl c s)
  case Nil
  then show ?case by simp
next
  case (Cons x rs)
  obtain ep v err where x: "x = (ep, v, err)" by (cases x)
  let ?succ1 = "(case err of None \<Rightarrow> succ(ep \<mapsto> v) | Some e \<Rightarrow> succ)"
  let ?fl1 = "(case err of None \<Rightarrow> fl | Some e \<Rightarrow> fl(ep \<mapsto> e))"
  have d: "dom ?succ1 \<union> dom ?fl1 = dom succ \<union> dom fl \<union> {ep}"
    by (cases err) auto
  have i: "ep \<notin> dom succ \<union> dom fl \<Longrightarrow> dom succ \<inter> dom fl = {} \<Longrightarrow> dom ?succ1 \<inter> dom ?fl1 = {}"
    by (cases err) auto
  from collect_nomcp_step[OF Cons.prems[unfolded x]] obtain s1 where
    g: "collect_nomcp on_progress tot rs ?succ1 ?fl1 (c + 1) s1 = (Inr (succ', fl'), s')" by blast
  from Cons.IH[OF g] d i x show ?case by auto
qed

lemma keys_count:
  assumes "A \<union> B = set eps" "A \<inter> B = {}" "distinct eps"
  shows "card A + card B = length eps"
proof -
  have "finite (A \<union> B)" using assms(1) by simp
  then have "finite A" "finite B" by simp_all
  then have "card A + card B = card (A \<union> B)" using assms(2) by (simp add: card_Un_disjoint)
  then show ?thesis using assms(1,3) by (simp add: distinct_card)
qed

section \<open>Lemmas: an open breaker\<close>

lemma is_open_True: "is_open now cb ep = (True, cb') \<Longrightarrow> cb' = cb \<and> states cb ep = Some OPEN"
  by (auto simp: is_open_def get_state_def split: option.splits if_splits)

lemma is_open_unseen: "states cb ep = None \<Longrightarrow> is_open now cb ep = (False, cb)"
  by (simp add: is_open_def get_state_def)

lemma is_open_within_recovery:
  "states cb ep = Some OPEN \<Longrightarrow> open_times cb ep = Some t \<Longrightarrow> now - t < recovery_timeout cb \<Longrightarrow>
   is_open now cb ep = (True, cb)"
  by (simp add: is_open_def get_state_def)

lemma fetch_one_short_circuit:
  assumes "fst (is_open (clock s) (circuit_breaker s) ep)"
  shows "\<exists>r s'. fetch_one fuel get on_progress tot ep s = Some (r, s')
           \<and> progress_only
                (s\<lparr>trace := trace s @ [BreakerCheck ep],
                   failed_d := (failed_d s)(ep \<mapsto> ''Circuit breaker open''),
                   completed := completed s + 1\<rparr>) s'
           \<and> (never_raises on_progress \<longrightarrow> r = Inr ())"
proof -
  obtain cb' where o: "is_open (clock s) (circuit_breaker s) ep = (True, cb')"
    using assms by (cases "is_open (clock s) (circuit_breaker s) ep") auto
  then have cb: "cb' = circuit_breaker s" by (simp add: is_open_True)
  let ?s3 = "s\<lparr>trace := trace s @ [BreakerCheck ep],
                failed_d := (failed_d s)(ep \<mapsto> ''Circuit breaker open''),
                completed := completed s + 1\<rparr>"
  obtain r s' where cp: "call_progress on_progress
      (ProgressInfo (completed s + 1) tot ep False (Some ''Circuit breaker open'')) ?s3 = (r, s')"
    by (metis prod.exhaust)
  have "fetch_one fuel get on_progress tot ep s = Some (r, s')"
    using o cb cp by (simp add: fetch_one_def Let_def log_ev_def)
  with call_progress_effect(1,2)[OF cp] show ?thesis by blast
qed

lemma record_failure_first_opens:
  assumes "failure_counts cb ep = None" "failure_threshold cb \<le> 1"
  shows "states (record_failure now cb ep) ep = Some OPEN"
    "open_times (record_failure now cb ep) ep = Some now"
    "recovery_timeout (record_failure now cb ep) = recovery_timeout cb"
  using assms by (simp_all add: record_failure_def Let_def)

lemma fetch_all_single:
  assumes "fetch_all fuel get on_progress [ep] s = Some (Inr r, s')"
  shows "fetch_one fuel get on_progress 1 ep
           (s\<lparr>successful_d := Map.empty, failed_d := Map.empty, completed := 0\<rparr>) = Some (Inr (), s')"
    and "successful r = successful_d s'" "failed r = failed_d s'"
  using assms
  by (auto simp: fetch_all_def Let_def split: option.splits sum.splits)

lemma fetch_all_single_intro:
  assumes "fetch_one fuel get on_progress 1 ep
           (s\<lparr>successful_d := Map.empty, failed_d := Map.empty, completed := 0\<rparr>) = Some (Inr (), s')"
  shows "fetch_all fuel get on_progress [ep] s =
           Some (Inr \<lparr>successful = successful_d s', failed = failed_d s',
                      duration_seconds = clock s' - clock s\<rparr>, s')"
  using assms by (simp add: fetch_all_def Let_def)

lemma second_call_short_circuits:
  assumes fresh: "states (circuit_breaker s) ep = None" "failure_counts (circuit_breaker s) ep = None"
    and thr: "failure_threshold (circuit_breaker s) \<le> 1"
    and nr: "never_raises on_progress" "never_raises on_progress2"
    and first: "fetch_all fuel get on_progress [ep] s = Some (Inr r1, s1)"
    and failing: "failed r1 ep \<noteq> None"
    and d: "d < recovery_timeout (circuit_breaker s)"
  shows "\<exists>r2 s2 prog. fetch_all fuel2 get2 on_progress2 [ep] (s1\<lparr>clock := clock s1 + d\<rparr>)
              = Some (Inr r2, s2)
           \<and> failed r2 = [ep \<mapsto> ''Circuit breaker open''] \<and> successful r2 = Map.empty
           \<and> http_client s2 = http_client s1 \<and> rate_limiter s2 = rate_limiter s1
           \<and> list_all is_progress prog \<and> trace s2 = trace s1 @ BreakerCheck ep # prog"
proof -
  let ?s0 = "s\<lparr>successful_d := Map.empty, failed_d := Map.empty, completed := 0\<rparr>"
  note f1 = fetch_all_single[OF first]
  have o0: "is_open (clock ?s0) (circuit_breaker ?s0) ep = (False, circuit_breaker s)"
    using fresh(1) by (simp add: is_open_unseen)
  from f1(1) have cb1: "circuit_breaker s1 = record_failure (clock s1) (circuit_breaker s) ep"
  proof (cases rule: fetch_one_cases)
    case (short_circuit cb')
    with o0 show ?thesis by simp
  next
    case (failure cb' e io prog)
    with o0 show ?thesis by simp
  next
    case (success cb' data io prog)
    with failing f1(3) show ?thesis by simp
  next
    case (callback_raised cb' data e io p1 p2)
    with nr(1) show ?thesis by simp
  qed
  note op = record_failure_first_opens[OF fresh(2) thr, of "clock s1"]
  let ?t = "s1\<lparr>clock := clock s1 + d\<rparr>"
  let ?t0 = "?t\<lparr>successful_d := Map.empty, failed_d := Map.empty, completed := 0\<rparr>"
  have "is_open (clock ?t0) (circuit_breaker ?t0) ep = (True, circuit_breaker ?t0)"
    using op d cb1 by (intro is_open_within_recovery[where t = "clock s1"]) simp_all
  then have "fst (is_open (clock ?t0) (circuit_breaker ?t0) ep)" by simp
  from fetch_one_short_circuit[OF this, of fuel2 get2 on_progress2 1] nr(2)
  obtain s2 where
    f2: "fetch_one fuel2 get2 on_progress2 1 ep ?t0 = Some (Inr (), s2)"
    and p: "progress_only
                (?t0\<lparr>trace := trace ?t0 @ [BreakerCheck ep],
                   failed_d := (failed_d ?t0)(ep \<mapsto> ''Circuit breaker open''),
                   completed := completed ?t0 + 1\<rparr>) s2"
    by auto
  from p obtain prog where prog: "list_all is_progress prog"
    and s2: "s2 = (?t0\<lparr>trace := trace ?t0 @ [BreakerCheck ep],
                   failed_d := (failed_d ?t0)(ep \<mapsto> ''Circuit breaker open''),
                   completed := completed ?t0 + 1\<rparr>)\<lparr>trace := (trace ?t0 @ [BreakerCheck ep]) @ prog\<rparr>"
    unfolding progress_only_def by auto
  from fetch_all_single_intro[OF f2] s2 prog
  show ?thesis
    by (intro exI[of _ "\<lparr>successful = successful_d s2, failed = failed_d s2,
                      duration_seconds = clock s2 - clock ?t\<rparr>"] exI[of _ s2] exI[of _ prog])
       simp
qed

lemma attempts_nomcp_opens:
  assumes "attempts_nomcp fetcher ep [a..<nat M] lst s = (Inr (ep', v, Some e), s')"
    and "a < nat M" and "max_retries_nomcp s = M"
    and "circuit_breakers s ep = Some cb" and "max_failures cb \<le> failure_count cb + 1"
  shows "\<exists>cb'. circuit_breakers s' ep = Some cb' \<and> state cb' = OPEN_nomcp
           \<and> last_failure_time cb' = clock_nomcp s' \<and> recovery_time cb' = recovery_time cb"
  using assms
proof (induction "nat M - a" arbitrary: a s lst cb)
  case 0
  then show ?case by simp
next
  case (Suc k)
  have upt: "[a..<nat M] = a # [Suc a..<nat M]" using Suc.prems(2) by (simp add: upt_conv_Cons)
  obtain r0 s0 where at: "attempt_nomcp fetcher ep s = (r0, s0)"
    by (cases "attempt_nomcp fetcher ep s")
  note keep = attempt_nomcp_keeps(1)[OF at]
  from Suc.prems(1) upt at obtain msg where r0: "r0 = Inl msg"
    by (cases r0) auto
  let ?cb1 = "record_failure_nomcp (clock_nomcp s0) cb"
  from at r0 Suc.prems(4) have cbs: "circuit_breakers s0 ep = Some ?cb1"
    by (cases rule: attempt_nomcp_cases) simp_all
  have cb1: "state ?cb1 = OPEN_nomcp" "last_failure_time ?cb1 = clock_nomcp s0"
    "recovery_time ?cb1 = recovery_time cb" "max_failures ?cb1 \<le> failure_count ?cb1 + 1"
    using Suc.prems(5) by (simp_all add: record_failure_nomcp_def Let_def)
  show ?case
  proof (cases "Suc a < nat M")
    case True
    then have lt: "int a < M - 1" by linarith
    have small: "a < 1024"
    proof (rule ccontr)
      assume "\<not> a < 1024"
      with Suc.prems(1) upt at r0 keep Suc.prems(3) lt show False
        by (simp add: backoff_delay_simps)
    qed
    let ?s1 = "asyncio_sleep_nomcp (2 ^ a * (1 / 10)) s0"
    have s1: "max_retries_nomcp ?s1 = M" "circuit_breakers ?s1 ep = Some ?cb1"
      using keep Suc.prems(3) cbs by (simp_all add: asyncio_sleep_nomcp_def log_ev_nomcp_def)
    from Suc.prems(1) upt at r0 keep Suc.prems(3) lt small
    have rec: "attempts_nomcp fetcher ep [Suc a..<nat M] (Some msg) ?s1 = (Inr (ep', v, Some e), s')"
      by (simp add: backoff_delay_simps)
    have k: "k = nat M - Suc a" using Suc.hyps(2) by simp
    from Suc.hyps(1)[OF k rec True s1(1) s1(2) cb1(4)] cb1(3) show ?thesis by simp
  next
    case False
    then have e: "[Suc a..<nat M] = []" "\<not> int a < M - 1" using Suc.prems(2) by simp_all
    from Suc.prems(1) upt at r0 keep Suc.prems(3) e have "s' = s0" by simp
    with cbs cb1 show ?thesis by simp
  qed
qed

lemma collect_nomcp_state:
  "collect_nomcp on_progress tot rs succ fl c s = (r, s') \<Longrightarrow>
     \<exists>prog. list_all is_progress prog \<and> s' = s\<lparr>trace_nomcp := trace_nomcp s @ prog\<rparr>"
proof (induction rs arbitrary: succ fl c s)
  case Nil
  then show ?case by (intro exI[of _ "[]"]) auto
next
  case (Cons x rs)
  obtain ep v err where x: "x = (ep, v, err)" by (cases x)
  show ?case
  proof (cases on_progress)
    case None
    with Cons.prems x obtain succ1 fl1 where
      "collect_nomcp on_progress tot rs succ1 fl1 (c + 1) s = (r, s')"
      by (auto simp: Let_def)
    from Cons.IH[OF this] show ?thesis .
  next
    case (Some cb)
    show ?thesis
    proof (cases "cb (c + 1) tot")
      case None
      with Cons.prems x Some obtain succ1 fl1 where
        "collect_nomcp on_progress tot rs succ1 fl1 (c + 1)
           (log_ev_nomcp (Progress_nomcp (c + 1) tot) s) = (r, s')"
        by (auto simp: Let_def)
      from Cons.IH[OF this] obtain prog where
        "list_all is_progress prog"
        "s' = (log_ev_nomcp (Progress_nomcp (c + 1) tot) s)
               \<lparr>trace_nomcp := trace_nomcp (log_ev_nomcp (Progress_nomcp (c + 1) tot) s) @ prog\<rparr>"
        by blast
      then show ?thesis
        by (intro exI[of _ "Progress_nomcp (c + 1) tot # prog"]) (simp add: log_ev_nomcp_def)
    next
      case (Some e)
      with Cons.prems x \<open>on_progress = Some cb\<close>
      have "s' = log_ev_nomcp (Progress_nomcp (c + 1) tot) s"
        by (auto simp: Let_def)
      then show ?thesis
        by (intro exI[of _ "[Progress_nomcp (c + 1) tot]"]) (simp add: log_ev_nomcp_def)
    qed
  qed
qed

lemma collect_nomcp_never_raises:
  "never_raises_nomcp on_progress \<Longrightarrow>
     \<exists>succ' fl' s'. collect_nomcp on_progress tot rs succ fl c s = (Inr (succ', fl'), s')"
proof (induction rs arbitrary: succ fl c s)
  case Nil
  then show ?case by simp
next
  case (Cons x rs)
  obtain ep v err where x: "x = (ep, v, err)" by (cases x)
  show ?case
  proof (cases on_progress)
    case None
    with Cons.IH[OF Cons.prems] x show ?thesis by (simp add: Let_def)
  next
    case (Some cb)
    with Cons.prems have "cb (c + 1) tot = None" by (simp add: never_raises_nomcp_def)
    with Cons.IH[OF Cons.prems] x Some show ?thesis by (simp add: Let_def)
  qed
qed

lemma fetch_all_nomcp_single:
  assumes "fetch_all_nomcp fetcher on_progress [ep] s = (Inr r, s')"
  shows "\<exists>v err sa prog. fetch_one_nomcp fetcher ep s = (Inr (ep, v, err), sa)
           \<and> list_all is_progress prog \<and> s' = sa\<lparr>trace_nomcp := trace_nomcp sa @ prog\<rparr>
           \<and> successful r = (case err of None \<Rightarrow> [ep \<mapsto> v] | Some m \<Rightarrow> Map.empty)
           \<and> failed r = (case err of None \<Rightarrow> Map.empty | Some m \<Rightarrow> [ep \<mapsto> m])"
proof -
  from assms obtain ep' v err sa where f: "fetch_one_nomcp fetcher ep s = (Inr (ep', v, err), sa)"
    by (cases "fetch_one_nomcp fetcher ep s")
       (auto simp: fetch_all_nomcp_def Let_def split: sum.splits)
  from fetch_one_nomcp_endpoint[OF f] have ep: "ep' = ep" .
  from assms f ep obtain succ fl where
    c: "collect_nomcp on_progress 1 [(ep, v, err)] Map.empty Map.empty 0 sa = (Inr (succ, fl), s')"
    and r: "successful r = succ" "failed r = fl"
    by (auto simp: fetch_all_nomcp_def Let_def split: prod.splits sum.splits)
  from collect_nomcp_state[OF c] obtain prog where
    p: "list_all is_progress prog" "s' = sa\<lparr>trace_nomcp := trace_nomcp sa @ prog\<rparr>" by blast
  from c have "succ = (case err of None \<Rightarrow> [ep \<mapsto> v] | Some m \<Rightarrow> Map.empty)"
    "fl = (case err of None \<Rightarrow> Map.empty | Some m \<Rightarrow> [ep \<mapsto> m])"
    by (auto simp: Let_def split: option.splits)
  with f ep p r show ?thesis by blast
qed

lemma second_call_short_circuits_nomcp:
  assumes fresh: "circuit_breakers s ep = None"
    and thr: "cb_threshold s \<le> 1"
    and nr: "never_raises_nomcp on_progress2"
    and first: "fetch_all_nomcp fetcher on_progress [ep] s = (Inr r1, s1)"
    and failing: "failed r1 ep \<noteq> None"
    and d: "d < cb_recovery s"
  shows "\<exists>r2 s2 prog. fetch_all_nomcp fetcher2 on_progress2 [ep]
                (s1\<lparr>clock_nomcp := clock_nomcp s1 + d\<rparr>) = (Inr r2, s2)
           \<and> failed r2 = [ep \<mapsto> ''Circuit breaker open''] \<and> successful r2 = Map.empty
           \<and> fetcher_state s2 = fetcher_state s1
           \<and> rate_limiter_nomcp s2 = rate_limiter_nomcp s1
           \<and> list_all is_progress prog \<and> trace_nomcp s2 = trace_nomcp s1 @ BreakerCheck ep # prog"
proof -
  from fetch_all_nomcp_single[OF first] failing obtain v m sa prog1 where
    f: "fetch_one_nomcp fetcher ep s = (Inr (ep, v, Some m), sa)"
    and s1: "s1 = sa\<lparr>trace_nomcp := trace_nomcp sa @ prog1\<rparr>"
    by (auto split: option.splits)
  let ?cb0 = "CircuitBreaker_init_nomcp (cb_threshold s) (cb_recovery s)"
  let ?sb = "s\<lparr>circuit_breakers := (circuit_breakers s)(ep \<mapsto> ?cb0)\<rparr>"
  let ?sc = "log_ev_nomcp (BreakerCheck ep) ?sb"
  have g: "get_circuit_breaker ep s = (?cb0, ?sb)"
    using fresh by (simp add: get_circuit_breaker_def Let_def)
  have av: "is_available_nomcp (clock_nomcp s) ?cb0"
    by (simp add: is_available_nomcp_def CircuitBreaker_init_nomcp_def)
  from f g av have loop:
    "attempts_nomcp fetcher ep [0..<nat (max_retries_nomcp s)] None ?sc = (Inr (ep, v, Some m), sa)"
    by (simp add: fetch_one_nomcp_def Let_def log_ev_nomcp_def)
  have pos: "0 < nat (max_retries_nomcp s)"
  proof (rule ccontr)
    assume "\<not> 0 < nat (max_retries_nomcp s)"
    then have "[0..<nat (max_retries_nomcp s)] = []" by simp
    with loop show False by simp
  qed
  have pre: "max_retries_nomcp ?sc = max_retries_nomcp s" "circuit_breakers ?sc ep = Some ?cb0"
    "max_failures ?cb0 \<le> failure_count ?cb0 + 1"
    using thr by (simp_all add: log_ev_nomcp_def CircuitBreaker_init_nomcp_def)
  from attempts_nomcp_opens[OF loop pos pre]
  obtain cb' where cb': "circuit_breakers sa ep = Some cb'" "state cb' = OPEN_nomcp"
    "last_failure_time cb' = clock_nomcp sa" "recovery_time cb' = cb_recovery s"
    by (auto simp: CircuitBreaker_init_nomcp_def)
  let ?t = "s1\<lparr>clock_nomcp := clock_nomcp s1 + d\<rparr>"
  have gt: "get_circuit_breaker ep ?t = (cb', ?t)"
    using cb' s1 by (simp add: get_circuit_breaker_def)
  have na: "\<not> is_available_nomcp (clock_nomcp ?t) cb'"
    using cb' s1 d by (simp add: is_available_nomcp_def)
  let ?t2 = "?t\<lparr>trace_nomcp := trace_nomcp ?t @ [BreakerCheck ep]\<rparr>"
  have f2: "fetch_one_nomcp fetcher2 ep ?t = (Inr (ep, JNone, Some ''Circuit breaker open''), ?t2)"
    using gt na by (simp add: fetch_one_nomcp_def Let_def log_ev_nomcp_def)
  from collect_nomcp_never_raises[OF nr, of 1 "[(ep, JNone, Some ''Circuit breaker open'')]"
      Map.empty Map.empty 0 ?t2]
  obtain succ fl s2 where
    c: "collect_nomcp on_progress2 1 [(ep, JNone, Some ''Circuit breaker open'')]
          Map.empty Map.empty 0 ?t2 = (Inr (succ, fl), s2)" by blast
  from collect_nomcp_state[OF c] obtain prog where
    p: "list_all is_progress prog" "s2 = ?t2\<lparr>trace_nomcp := trace_nomcp ?t2 @ prog\<rparr>" by blast
  from c have sf: "succ = Map.empty" "fl = [ep \<mapsto> ''Circuit breaker open'']"
    by (auto simp: Let_def split: option.splits)
  have "fetch_all_nomcp fetcher2 on_progress2 [ep] ?t =
          (Inr \<lparr>successful = succ, failed = fl,
                 duration_seconds = clock_nomcp s2 - clock_nomcp ?t\<rparr>, s2)"
    using f2 c by (simp add: fetch_all_nomcp_def Let_def)
  with sf p show ?thesis
    by (intro exI[of _ "\<lparr>successful = succ, failed = fl,
                 duration_seconds = clock_nomcp s2 - clock_nomcp ?t\<rparr>"] exI[of _ s2] exI[of _ prog])
       simp
qed

section \<open>Lemmas: a transport that is always too slow\<close>

lemma fetch_endpoint_times_out:
  assumes "\<forall>c u t. timeout s \<le> fst (fst (get c u t))"
    and "fetch_endpoint get ep s = (r, s')"
  shows "r = Inl TimeoutError" "trace s' = trace s @ [TransportCall ep]"
proof -
  obtain delay r0 c' where g: "get (http_client s) ep (timeout s) = ((delay, r0), c')"
    by (metis prod.exhaust)
  from assms(1) have "timeout s \<le> fst (fst (get (http_client s) ep (timeout s)))" by blast
  with g have "\<not> delay < timeout s" by simp
  with assms(2) g show "r = Inl TimeoutError" "trace s' = trace s @ [TransportCall ep]"
    by (auto simp: fetch_endpoint_def wait_for_def log_ev_def)
qed

lemma no_overflow_upt: "M \<le> 1025 \<Longrightarrow> list_all (\<lambda>a. a < 1024 \<or> \<not> int a < M - 1) [0..<nat M]"
  by (auto simp: list_all_iff)

lemma retry_attempts_times_out:
  assumes "\<forall>c u t. timeout s \<le> fst (fst (get c u t))"
    and "retry_attempts asyncio_sleep (fetch_endpoint get ep) M b atts lst s = (r, s')"
    and "list_all (\<lambda>a. a < 1024 \<or> \<not> int a < M - 1) atts"
  shows "(atts \<noteq> [] \<longrightarrow> r = Inl TimeoutError)
       \<and> (\<exists>io. list_all is_io io \<and> trace s' = trace s @ io
             \<and> length (filter is_transport io) = length atts)"
  using assms
proof (induction atts arbitrary: lst s)
  case Nil
  then show ?case by (auto split: option.splits intro: exI[of _ "[]"])
next
  case (Cons a atts)
  obtain r0 s0 where f: "fetch_endpoint get ep s = (r0, s0)" by (metis prod.exhaust)
  note t = fetch_endpoint_times_out[OF Cons.prems(1) f]
  have k0: "timeout s0 = timeout s" using io_only_fetch_endpoint[OF f] by (simp add: io_only_def)
  let ?s1 = "if int a < M - 1 then asyncio_sleep (b * 2 ^ a) s0 else s0"
  have s1: "timeout ?s1 = timeout s" "trace ?s1 = trace s @ TransportCall ep
              # (if int a < M - 1 then [Sleep (b * 2 ^ a)] else [])"
    using k0 t(2) by (simp_all add: asyncio_sleep_def log_ev_def)
  from Cons.prems(2,3) f t(1)
  have rec: "retry_attempts asyncio_sleep (fetch_endpoint get ep) M b atts (Some TimeoutError) ?s1
               = (r, s')" by (auto simp: backoff_delay_simps)
  have rest: "list_all (\<lambda>a. a < 1024 \<or> \<not> int a < M - 1) atts" using Cons.prems(3) by simp
  have "\<forall>c u t. timeout ?s1 \<le> fst (fst (get c u t))" using Cons.prems(1) s1(1) by simp
  from Cons.IH[OF this rec rest] obtain io where
    io: "atts \<noteq> [] \<longrightarrow> r = Inl TimeoutError" "list_all is_io io" "trace s' = trace ?s1 @ io"
      "length (filter is_transport io) = length atts" by blast
  have r: "r = Inl TimeoutError"
  proof (cases atts)
    case Nil
    with rec show ?thesis by simp
  next
    case (Cons x xs)
    with io(1) show ?thesis by simp
  qed
  show ?case
    using r io s1(2)
    by (intro conjI impI exI[of _ "TransportCall ep
              # (if int a < M - 1 then [Sleep (b * 2 ^ a)] else []) @ io"]) simp_all
qed

lemma fetch_one_times_out:
  assumes slow: "\<forall>c u t. timeout s \<le> fst (fst (get c u t))"
    and m: "max_retries s \<ge> 1" "max_retries s \<le> 1025"
    and ok: "limiter_ok (clock s) (rate_limiter s)" and fuel: "fuel \<ge> 1"
    and adm: "\<not> fst (is_open (clock s) (circuit_breaker s) ep)"
  shows "\<exists>r s' evs. fetch_one fuel get on_progress tot ep s = Some (r, s')
           \<and> failed_d s' = (failed_d s)(ep \<mapsto> str_exn TimeoutError)
           \<and> successful_d s' = successful_d s
           \<and> trace s' = trace s @ evs
           \<and> length (filter is_transport evs) = nat (max_retries s)
           \<and> filter is_recording evs = [RecordFailure ep]"
proof -
  obtain cb' where o: "is_open (clock s) (circuit_breaker s) ep = (False, cb')"
    using adm by (cases "is_open (clock s) (circuit_breaker s) ep") auto
  from acquire_ok[OF ok fuel] obtain now' rl' where
    acq: "acquire fuel (clock s) (rate_limiter s) = Some (Inr (), now', rl')" by blast
  let ?s1 = "s\<lparr>circuit_breaker := cb', trace := trace s @ [BreakerCheck ep]\<rparr>"
  let ?s2 = "?s1\<lparr>trace := trace ?s1 @ [Acquire], clock := now', rate_limiter := rl'\<rparr>"
  obtain rr s3 where
    retry: "retry_with_backoff asyncio_sleep (fetch_endpoint get ep) (max_retries s) (1 / 10) ?s2
              = (rr, s3)" by (metis prod.exhaust)
  have "\<forall>c u t. timeout ?s2 \<le> fst (fst (get c u t))" using slow by simp
  from retry_attempts_times_out[OF this retry[unfolded retry_with_backoff_def]
      no_overflow_upt[OF m(2)]] m(1)
  obtain io where io: "rr = Inl TimeoutError" "list_all is_io io" "trace s3 = trace ?s2 @ io"
    "length (filter is_transport io) = nat (max_retries s)" by auto
  from retry_with_backoff_io_only[OF retry]
  have keep: "successful_d s3 = successful_d s" "failed_d s3 = failed_d s"
    by (simp_all add: io_only_def)
  have t: "fetch_one_try fuel get on_progress tot ep ?s1 = Some (Inl TimeoutError, s3)"
    using retry io(1) acq by (simp add: fetch_one_try_def Let_def log_ev_def)
  obtain r s' where e: "fetch_one_except on_progress tot ep TimeoutError s3 = (r, s')"
    by (metis prod.exhaust)
  from fetch_one_except_effect(1)[OF e] obtain prog where
    p: "list_all is_progress prog"
    "s' = (s3\<lparr>failed_d := (failed_d s3)(ep \<mapsto> str_exn TimeoutError),
              circuit_breaker := record_failure (clock s3) (circuit_breaker s3) ep,
              trace := trace s3 @ [RecordFailure ep],
              completed := completed s3 + 1\<rparr>)\<lparr>trace := (trace s3 @ [RecordFailure ep]) @ prog\<rparr>"
    unfolding progress_only_def by auto
  have f: "fetch_one fuel get on_progress tot ep s = Some (r, s')"
    using o t e by (simp add: fetch_one_def Let_def log_ev_def)
  have flt: "filter is_transport prog = []" "filter is_recording prog = []"
    "filter is_recording io = []"
    using p(1) io(2) by (auto intro: filter_none simp: progress_not io_not)
  show ?thesis
    using f p(2) io(3,4) keep flt
    by (intro exI[of _ r] exI[of _ s']
          exI[of _ "BreakerCheck ep # Acquire # io @ RecordFailure ep # prog"]) simp
qed

lemma attempt_nomcp_times_out:
  assumes slow: "\<forall>c u. timeout_nomcp s \<le> fst (fst ((case fetcher of None \<Rightarrow> default_fetch | Some f \<Rightarrow> f) c u))"
    and lim: "max_requests_nomcp (rate_limiter_nomcp s) \<ge> 1"
    and at: "attempt_nomcp fetcher ep s = (r, s')"
  shows "r = Inl ''Timeout''"
    and "trace_nomcp s' = trace_nomcp s @ [Acquire, TransportCall ep, RecordFailure ep]"
proof -
  let ?tr = "(case fetcher of None \<Rightarrow> default_fetch | Some f \<Rightarrow> f)"
  obtain ra now' rl' where acq: "acquire_nomcp (clock_nomcp s) (rate_limiter_nomcp s) = (ra, now', rl')"
    by (metis prod.exhaust)
  from acquire_nomcp_keeps(4)[OF acq lim] have ra: "ra = Inr ()" .
  obtain delay r0 fs' where g: "?tr (fetcher_state s) ep = ((delay, r0), fs')"
    by (metis prod.exhaust)
  from slow have "timeout_nomcp s \<le> fst (fst (?tr (fetcher_state s) ep))" by blast
  with g have nd: "\<not> delay < timeout_nomcp s" by simp
  from at acq ra g nd
  show "r = Inl ''Timeout''"
    and "trace_nomcp s' = trace_nomcp s @ [Acquire, TransportCall ep, RecordFailure ep]"
    by (auto simp: attempt_nomcp_def Let_def log_ev_nomcp_def wait_for_def cb_record_failure_def)
qed

lemma attempts_nomcp_times_out:
  assumes "\<forall>c u. timeout_nomcp s \<le> fst (fst ((case fetcher of None \<Rightarrow> default_fetch | Some f \<Rightarrow> f) c u))"
    and "max_requests_nomcp (rate_limiter_nomcp s) \<ge> 1"
    and "attempts_nomcp fetcher ep atts lst s = (r, s')"
    and "list_all (\<lambda>a. a < 1024 \<or> \<not> int a < max_retries_nomcp s - 1) atts"
  shows "(atts \<noteq> [] \<longrightarrow> r = Inr (ep, JNone, Some ''Timeout''))
       \<and> (\<exists>evs. trace_nomcp s' = trace_nomcp s @ evs
             \<and> length (filter is_transport evs) = length atts
             \<and> length (filter is_recording evs) = length atts)"
  using assms
proof (induction atts arbitrary: lst s)
  case Nil
  then show ?case by simp
next
  case (Cons a atts)
  obtain r0 s0 where at: "attempt_nomcp fetcher ep s = (r0, s0)" by (metis prod.exhaust)
  note t = attempt_nomcp_times_out[OF Cons.prems(1,2) at]
  note k = attempt_nomcp_keeps[OF at]
  let ?s1 = "if int a < max_retries_nomcp s0 - 1
             then asyncio_sleep_nomcp (2 ^ a * (1 / 10)) s0 else s0"
  have s1: "timeout_nomcp ?s1 = timeout_nomcp s"
    "max_requests_nomcp (rate_limiter_nomcp ?s1) = max_requests_nomcp (rate_limiter_nomcp s)"
    "trace_nomcp ?s1 = trace_nomcp s @ [Acquire, TransportCall ep, RecordFailure ep]
        @ (if int a < max_retries_nomcp s0 - 1 then [Sleep (2 ^ a * (1 / 10))] else [])"
    using k t(2) by (simp_all add: asyncio_sleep_nomcp_def log_ev_nomcp_def)
  from Cons.prems(3,4) at t(1) k(1)
  have rec: "attempts_nomcp fetcher ep atts (Some ''Timeout'') ?s1 = (r, s')"
    by (auto simp: backoff_delay_simps)
  have rest: "list_all (\<lambda>a. a < 1024 \<or> \<not> int a < max_retries_nomcp ?s1 - 1) atts"
    using Cons.prems(4) k(1) by (simp add: asyncio_sleep_nomcp_def log_ev_nomcp_def)
  have pre: "\<forall>c u. timeout_nomcp ?s1 \<le> fst (fst ((case fetcher of None \<Rightarrow> default_fetch | Some f \<Rightarrow> f) c u))"
    "max_requests_nomcp (rate_limiter_nomcp ?s1) \<ge> 1"
    using Cons.prems(1,2) s1(1,2) by simp_all
  from Cons.IH[OF pre rec rest] obtain evs where
    ih: "atts \<noteq> [] \<longrightarrow> r = Inr (ep, JNone, Some ''Timeout'')"
      "trace_nomcp s' = trace_nomcp ?s1 @ evs"
      "length (filter is_transport evs) = length atts"
      "length (filter is_recording evs) = length atts" by blast
  have e: "r = Inr (ep, JNone, Some ''Timeout'')"
  proof (cases atts)
    case Nil
    with rec show ?thesis by simp
  next
    case (Cons x xs)
    with ih(1) show ?thesis by simp
  qed
  show ?case
    using e ih(2,3,4) s1(3)
    by (intro conjI impI exI[of _ "[Acquire, TransportCall ep, RecordFailure ep]
        @ (if int a < max_retries_nomcp s0 - 1 then [Sleep (2 ^ a * (1 / 10))] else []) @ evs"])
       simp_all
qed

lemma fetch_one_nomcp_times_out:
  assumes slow: "\<forall>c u. timeout_nomcp s \<le> fst (fst ((case fetcher of None \<Rightarrow> default_fetch | Some f \<Rightarrow> f) c u))"
    and lim: "max_requests_nomcp (rate_limiter_nomcp s) \<ge> 1"
    and m: "max_retries_nomcp s \<ge> 1" "max_retries_nomcp s \<le> 1025"
    and adm: "is_available_nomcp (clock_nomcp s) (fst (get_circuit_breaker ep s))"
  shows "\<exists>s' evs. fetch_one_nomcp fetcher ep s = (Inr (ep, JNone, Some ''Timeout''), s')
           \<and> trace_nomcp s' = trace_nomcp s @ evs
           \<and> length (filter is_transport evs) = nat (max_retries_nomcp s)
           \<and> length (filter is_recording evs) = nat (max_retries_nomcp s)"
proof -
  obtain cb sb where g: "get_circuit_breaker ep s = (cb, sb)" by (metis prod.exhaust)
  then have sb: "trace_nomcp sb = trace_nomcp s" "max_retries_nomcp sb = max_retries_nomcp s"
    "clock_nomcp sb = clock_nomcp s" "timeout_nomcp sb = timeout_nomcp s"
    "rate_limiter_nomcp sb = rate_limiter_nomcp s"
    by (auto simp: get_circuit_breaker_def Let_def split: option.splits)
  let ?s2 = "log_ev_nomcp (BreakerCheck ep) sb"
  obtain r s' where
    loop: "attempts_nomcp fetcher ep [0..<nat (max_retries_nomcp s)] None ?s2 = (r, s')"
    by (metis prod.exhaust)
  have pre: "\<forall>c u. timeout_nomcp ?s2 \<le> fst (fst ((case fetcher of None \<Rightarrow> default_fetch | Some f \<Rightarrow> f) c u))"
    "max_requests_nomcp (rate_limiter_nomcp ?s2) \<ge> 1"
    using slow lim sb by (simp_all add: log_ev_nomcp_def)
  have ne: "[0..<nat (max_retries_nomcp s)] \<noteq> []" using m(1) by simp
  have s2: "clock_nomcp ?s2 = clock_nomcp s" "max_retries_nomcp ?s2 = max_retries_nomcp s"
    using sb by (simp_all add: log_ev_nomcp_def)
  have nov: "list_all (\<lambda>a. a < 1024 \<or> \<not> int a < max_retries_nomcp ?s2 - 1)
               [0..<nat (max_retries_nomcp s)]"
    using no_overflow_upt[OF m(2)] s2(2) by simp
  from attempts_nomcp_times_out[OF pre loop nov] ne obtain evs where
    r: "r = Inr (ep, JNone, Some ''Timeout'')" "trace_nomcp s' = trace_nomcp ?s2 @ evs"
      "length (filter is_transport evs) = nat (max_retries_nomcp s)"
      "length (filter is_recording evs) = nat (max_retries_nomcp s)" by auto
  have f: "fetch_one_nomcp fetcher ep s = (Inr (ep, JNone, Some ''Timeout''), s')"
    using g adm s2 loop r(1) by (simp add: fetch_one_nomcp_def Let_def)
  show ?thesis
    using f r(2,3,4) sb(1)
    by (intro exI[of _ s'] exI[of _ "BreakerCheck ep # evs"]) (simp add: log_ev_nomcp_def)
qed

section \<open>Lemmas: \<^verbatim>\<open>fetch_all\<close> returns\<close>

lemma fetch_one_except_ok:
  assumes "fetch_one_except on_progress tot ep e s = (r, s')"
  shows "rate_limiter s' = rate_limiter s" "clock s' = clock s"
  using fetch_one_except_effect(1)[OF assms] unfolding progress_only_def by auto

lemma fetch_one_try_ok:
  assumes ok: "limiter_ok (clock s) (rate_limiter s)" and fuel: "fuel \<ge> 1"
  shows "\<exists>r s'. fetch_one_try fuel get on_progress tot ep s = Some (r, s')
           \<and> limiter_ok (clock s') (rate_limiter s')"
proof -
  from acquire_ok[OF ok fuel] obtain now' rl' where
    acq: "acquire fuel (clock s) (rate_limiter s) = Some (Inr (), now', rl')"
    and ok': "limiter_ok now' rl'" by blast
  let ?s1 = "s\<lparr>trace := trace s @ [Acquire], clock := now', rate_limiter := rl'\<rparr>"
  obtain rr s2 where
    retry: "retry_with_backoff asyncio_sleep (fetch_endpoint get ep) (max_retries s) (1 / 10) ?s1
              = (rr, s2)" by (metis prod.exhaust)
  from retry_with_backoff_io_only[OF retry]
  have k: "rate_limiter s2 = rl'" "now' \<le> clock s2" by (simp_all add: io_only_def)
  then have ok2: "limiter_ok (clock s2) (rate_limiter s2)"
    using ok' by (simp add: limiter_ok_mono)
  show ?thesis
  proof (cases rr)
    case (Inl e)
    with acq retry have "fetch_one_try fuel get on_progress tot ep s = Some (Inl e, s2)"
      by (simp add: fetch_one_try_def Let_def log_ev_def)
    with ok2 show ?thesis by blast
  next
    case (Inr data)
    let ?s5 = "s2\<lparr>successful_d := (successful_d s2)(ep \<mapsto> data),
             circuit_breaker := record_success (circuit_breaker s2) ep,
             trace := trace s2 @ [RecordSuccess ep],
             completed := completed s2 + 1\<rparr>"
    obtain r s' where
      cp: "call_progress on_progress (ProgressInfo (completed s2 + 1) tot ep True None) ?s5 = (r, s')"
      by (metis prod.exhaust)
    from call_progress_effect(1)[OF cp]
    have "rate_limiter s' = rate_limiter s2" "clock s' = clock s2"
      unfolding progress_only_def by auto
    with ok2 have ok3: "limiter_ok (clock s') (rate_limiter s')" by simp
    from acq retry Inr cp have "fetch_one_try fuel get on_progress tot ep s = Some (r, s')"
      by (simp add: fetch_one_try_def Let_def log_ev_def)
    with ok3 show ?thesis by blast
  qed
qed

lemma fetch_one_ok:
  assumes ok: "limiter_ok (clock s) (rate_limiter s)" and fuel: "fuel \<ge> 1"
  shows "\<exists>r s'. fetch_one fuel get on_progress tot ep s = Some (r, s')
           \<and> limiter_ok (clock s') (rate_limiter s')"
proof (cases "fst (is_open (clock s) (circuit_breaker s) ep)")
  case True
  from fetch_one_short_circuit[OF True, of fuel get on_progress tot]
  obtain r s' where f: "fetch_one fuel get on_progress tot ep s = Some (r, s')"
    and p: "progress_only
                (s\<lparr>trace := trace s @ [BreakerCheck ep],
                   failed_d := (failed_d s)(ep \<mapsto> ''Circuit breaker open''),
                   completed := completed s + 1\<rparr>) s'" by blast
  from p have "rate_limiter s' = rate_limiter s" "clock s' = clock s"
    unfolding progress_only_def by auto
  with ok f show ?thesis by auto
next
  case False
  then obtain cb' where o: "is_open (clock s) (circuit_breaker s) ep = (False, cb')"
    by (cases "is_open (clock s) (circuit_breaker s) ep") auto
  let ?s1 = "s\<lparr>circuit_breaker := cb', trace := trace s @ [BreakerCheck ep]\<rparr>"
  have "limiter_ok (clock ?s1) (rate_limiter ?s1)" using ok by simp
  from fetch_one_try_ok[OF this fuel, of get on_progress tot ep] obtain rt s2 where
    t: "fetch_one_try fuel get on_progress tot ep ?s1 = Some (rt, s2)"
    and ok2: "limiter_ok (clock s2) (rate_limiter s2)" by blast
  show ?thesis
  proof (cases rt)
    case (Inr u)
    with o t have "fetch_one fuel get on_progress tot ep s = Some (Inr (), s2)"
      by (simp add: fetch_one_def Let_def log_ev_def)
    with ok2 show ?thesis by blast
  next
    case (Inl e)
    obtain r s' where ex: "fetch_one_except on_progress tot ep e s2 = (r, s')"
      by (metis prod.exhaust)
    with o t Inl have "fetch_one fuel get on_progress tot ep s = Some (r, s')"
      by (simp add: fetch_one_def Let_def log_ev_def)
    with ok2 fetch_one_except_ok[OF ex] show ?thesis by auto
  qed
qed

lemma gather_ok:
  assumes nr: "never_raises on_progress" and fuel: "fuel \<ge> 1"
  shows "limiter_ok (clock s) (rate_limiter s) \<Longrightarrow>
     \<exists>s'. gather fuel get on_progress tot eps s = Some (Inr (), s')
        \<and> limiter_ok (clock s') (rate_limiter s')"
proof (induction eps arbitrary: s)
  case Nil
  then show ?case by simp
next
  case (Cons ep eps)
  from fetch_one_ok[OF Cons.prems fuel, of get on_progress tot ep] obtain r s1 where
    f: "fetch_one fuel get on_progress tot ep s = Some (r, s1)"
    and ok1: "limiter_ok (clock s1) (rate_limiter s1)" by blast
  from fetch_one_dicts(1)[OF f nr] have r: "r = Inr ()" .
  from Cons.IH[OF ok1] f r show ?case by simp
qed

lemma fetch_all_ok:
  assumes nr: "never_raises on_progress" and fuel: "fuel \<ge> 1"
    and ok: "limiter_ok (clock s) (rate_limiter s)"
  shows "\<exists>r s'. fetch_all fuel get on_progress endpoints s = Some (Inr r, s')
           \<and> limiter_ok (clock s') (rate_limiter s')"
proof -
  let ?s0 = "s\<lparr>successful_d := Map.empty, failed_d := Map.empty, completed := 0\<rparr>"
  have "limiter_ok (clock ?s0) (rate_limiter ?s0)" using ok by simp
  from gather_ok[OF nr fuel this, of get "int (length endpoints)" endpoints] obtain s' where
    "gather fuel get on_progress (int (length endpoints)) endpoints ?s0 = Some (Inr (), s')"
    "limiter_ok (clock s') (rate_limiter s')" by blast
  then show ?thesis by (simp add: fetch_all_def Let_def)
qed

lemma fetch_all_never_raises:
  assumes "never_raises on_progress"
    and "fetch_all fuel get on_progress endpoints s = Some (x, s')"
  shows "\<exists>r. x = Inr r"
proof -
  let ?s0 = "s\<lparr>successful_d := Map.empty, failed_d := Map.empty, completed := 0\<rparr>"
  from assms(2) obtain y where
    g: "gather fuel get on_progress (int (length endpoints)) endpoints ?s0 = Some (y, s')"
    by (auto simp: fetch_all_def Let_def split: option.splits sum.splits)
  from gather_dicts[OF assms(1) g] have "y = Inr ()" by simp
  with assms(2) g show ?thesis by (auto simp: fetch_all_def Let_def)
qed

text \<open>
  Without MCP the only exception that leaves a task is the \<^verbatim>\<open>OverflowError\<close> of the
  back-off, which needs at least 1026 attempts.
\<close>

lemma fetch_one_nomcp_keeps:
  assumes "fetch_one_nomcp fetcher ep s = (r, s')"
  shows "max_retries_nomcp s' = max_retries_nomcp s"
proof -
  obtain cb s1 where g: "get_circuit_breaker ep s = (cb, s1)" by (cases "get_circuit_breaker ep s")
  then have s1: "max_retries_nomcp s1 = max_retries_nomcp s"
    by (auto simp: get_circuit_breaker_def Let_def split: option.splits)
  let ?s2 = "log_ev_nomcp (BreakerCheck ep) s1"
  have s2: "max_retries_nomcp ?s2 = max_retries_nomcp s" using s1 by (simp add: log_ev_nomcp_def)
  show ?thesis
  proof (cases "is_available_nomcp (clock_nomcp ?s2) cb")
    case False
    with assms g s2 show ?thesis by (auto simp: fetch_one_nomcp_def Let_def)
  next
    case True
    with assms g
    have "attempts_nomcp fetcher ep [0..<nat (max_retries_nomcp s)] None ?s2 = (r, s')"
      using s2 by (simp add: fetch_one_nomcp_def Let_def)
    from attempts_nomcp_trace[OF this s2] show ?thesis by simp
  qed
qed


lemma gather_nomcp_keeps:
  "gather_nomcp fetcher eps s = (r, s') \<Longrightarrow> max_retries_nomcp s' = max_retries_nomcp s"
proof (induction eps arbitrary: s r s')
  case Nil
  then show ?case by simp
next
  case (Cons ep eps)
  obtain r1 s1 where f: "fetch_one_nomcp fetcher ep s = (r1, s1)" by (metis prod.exhaust)
  note k = fetch_one_nomcp_keeps[OF f]
  show ?case
  proof (cases r1)
    case (Inl e)
    with Cons.prems f k show ?thesis by simp
  next
    case (Inr o1)
    obtain r2 s2 where g: "gather_nomcp fetcher eps s1 = (r2, s2)" by (metis prod.exhaust)
    from Cons.IH[OF g] k have "max_retries_nomcp s2 = max_retries_nomcp s" by simp
    with Cons.prems f Inr g show ?thesis by (auto split: sum.splits)
  qed
qed








lemma fetch_all_keys:
  assumes "never_raises on_progress"
    and "fetch_all fuel get on_progress endpoints s = Some (Inr r, s')"
  shows "dom (successful r) \<union> dom (failed r) = set endpoints"
proof -
  let ?s0 = "s\<lparr>successful_d := Map.empty, failed_d := Map.empty, completed := 0\<rparr>"
  from assms(2) obtain u where
    g: "gather fuel get on_progress (int (length endpoints)) endpoints ?s0 = Some (Inr u, s')"
    and r: "successful r = successful_d s'" "failed r = failed_d s'"
    by (auto simp: fetch_all_def Let_def split: option.splits sum.splits)
  from gather_dicts[OF assms(1) g] r show ?thesis by simp
qed



section \<open>Lemmas: failures, and the progress callback\<close>

lemma call_progress_result:
  "call_progress on_progress info s = (r, s') \<Longrightarrow> r = progress_result on_progress info"
  by (auto simp: call_progress_def progress_result_def split: option.splits)


lemma progress_only_keeps:
  assumes "progress_only s s'"
  shows "successful_d s' = successful_d s" "failed_d s' = failed_d s" "timeout s' = timeout s"
    "max_retries s' = max_retries s" "clock s' = clock s" "rate_limiter s' = rate_limiter s"
    "circuit_breaker s' = circuit_breaker s" "http_client s' = http_client s"
  using assms unfolding progress_only_def by auto

text \<open>
  The three outcomes of a task with MCP: the endpoint is stored in \<open>failed\<close> and the
  failure is reported; it is stored in \<open>successful\<close> and the report of the success returns;
  or it is stored in \<open>successful\<close>, the report of the success raises, and the handler stores
  it in \<open>failed\<close> as well and reports the failure. In the last two the retry sequence
  returned a payload.
\<close>

lemma fetch_one_outcome:
  assumes "fetch_one fuel get on_progress tot ep s = Some (r, s')"
  shows "timeout s' = timeout s \<and>
    ((\<exists>reason info. \<not> pi_success info \<and> r = progress_result on_progress info
         \<and> failed_d s' = (failed_d s)(ep \<mapsto> reason) \<and> successful_d s' = successful_d s)
     \<or> (\<exists>data info s1 s2. pi_success info \<and> progress_result on_progress info = Inr () \<and> r = Inr ()
         \<and> timeout s1 = timeout s
         \<and> retry_with_backoff asyncio_sleep (fetch_endpoint get ep) (max_retries s) (1 / 10) s1
              = (Inr data, s2)
         \<and> successful_d s' = (successful_d s)(ep \<mapsto> data) \<and> failed_d s' = failed_d s)
     \<or> (\<exists>data info e info2 s1 s2. pi_success info \<and> progress_result on_progress info = Inl e
         \<and> \<not> pi_success info2 \<and> r = progress_result on_progress info2
         \<and> timeout s1 = timeout s
         \<and> retry_with_backoff asyncio_sleep (fetch_endpoint get ep) (max_retries s) (1 / 10) s1
              = (Inr data, s2)
         \<and> successful_d s' = (successful_d s)(ep \<mapsto> data)
         \<and> failed_d s' = (failed_d s)(ep \<mapsto> str_exn e)))"
proof -
  obtain opn cb' where io: "is_open (clock s) (circuit_breaker s) ep = (opn, cb')"
    by (cases "is_open (clock s) (circuit_breaker s) ep")
  let ?s1 = "s\<lparr>circuit_breaker := cb', trace := trace s @ [BreakerCheck ep]\<rparr>"
  have s1: "log_ev (BreakerCheck ep) (s\<lparr>circuit_breaker := cb'\<rparr>) = ?s1" by (simp add: log_ev_def)
  show ?thesis
  proof (cases opn)
    case True
    let ?s3 = "s\<lparr>circuit_breaker := cb', trace := trace s @ [BreakerCheck ep],
            failed_d := (failed_d s)(ep \<mapsto> ''Circuit breaker open''),
            completed := completed s + 1\<rparr>"
    let ?info = "ProgressInfo (completed s + 1) tot ep False (Some ''Circuit breaker open'')"
    from assms io True
    have cp: "call_progress on_progress ?info ?s3 = (r, s')"
      by (simp add: fetch_one_def Let_def log_ev_def)
    note k = progress_only_keeps[OF call_progress_effect(1)[OF cp]]
    have "\<exists>reason info. \<not> pi_success info \<and> r = progress_result on_progress info
         \<and> failed_d s' = (failed_d s)(ep \<mapsto> reason) \<and> successful_d s' = successful_d s"
      using call_progress_result[OF cp] k
      by (intro exI[of _ "''Circuit breaker open''"] exI[of _ ?info]) simp
    then show ?thesis using k(3) by simp
  next
    case False
    from assms io False s1 obtain rt s2 where
      t: "fetch_one_try fuel get on_progress tot ep ?s1 = Some (rt, s2)"
      by (auto simp: fetch_one_def Let_def split: option.splits)
    have exc: "\<And>e. rt = Inl e \<Longrightarrow> fetch_one_except on_progress tot ep e s2 = (r, s')"
      using assms io False s1 t by (simp add: fetch_one_def Let_def)
    have ok: "rt = Inr () \<Longrightarrow> r = Inr () \<and> s' = s2"
      using assms io False s1 t by (simp add: fetch_one_def Let_def)
    have handler: "\<exists>info2. \<not> pi_success info2 \<and> r = progress_result on_progress info2
          \<and> failed_d s' = (failed_d s2)(ep \<mapsto> str_exn e) \<and> successful_d s' = successful_d s2
          \<and> timeout s' = timeout s2"
      if "rt = Inl e" for e
    proof -
      let ?info = "ProgressInfo (completed s2 + 1) tot ep False (Some (str_exn e))"
      let ?s5 = "s2\<lparr>failed_d := (failed_d s2)(ep \<mapsto> str_exn e),
              circuit_breaker := record_failure (clock s2) (circuit_breaker s2) ep,
              trace := trace s2 @ [RecordFailure ep],
              completed := completed s2 + 1\<rparr>"
      from exc[OF that] have cp: "call_progress on_progress ?info ?s5 = (r, s')"
        by (simp add: fetch_one_except_def Let_def log_ev_def)
      note k = progress_only_keeps[OF call_progress_effect(1)[OF cp]]
      show ?thesis using call_progress_result[OF cp] k by (intro exI[of _ ?info]) simp
    qed
    from t show ?thesis
    proof (cases rule: fetch_one_try_cases)
      case (acquire_raised e now' rl')
      from handler[OF acquire_raised(2)] acquire_raised(3)
      have "\<exists>reason info. \<not> pi_success info \<and> r = progress_result on_progress info
         \<and> failed_d s' = (failed_d s)(ep \<mapsto> reason) \<and> successful_d s' = successful_d s"
        by (intro exI[of _ "str_exn e"]) auto
      moreover have "timeout s' = timeout s"
        using handler[OF acquire_raised(2)] acquire_raised(3) by auto
      ultimately show ?thesis by simp
    next
      case (retry_raised e now' rl')
      from retry_with_backoff_io_only[OF retry_raised(3)]
      have keep: "successful_d s2 = successful_d s" "failed_d s2 = failed_d s"
        "timeout s2 = timeout s"
        unfolding io_only_def by auto
      from handler[OF retry_raised(2)] keep
      have "\<exists>reason info. \<not> pi_success info \<and> r = progress_result on_progress info
         \<and> failed_d s' = (failed_d s)(ep \<mapsto> reason) \<and> successful_d s' = successful_d s"
        by (intro exI[of _ "str_exn e"]) auto
      moreover have "timeout s' = timeout s"
        using handler[OF retry_raised(2)] keep by auto
      ultimately show ?thesis by simp
    next
      case (succeeded data now' rl' s3)
      let ?sa = "?s1\<lparr>trace := trace ?s1 @ [Acquire], clock := now', rate_limiter := rl'\<rparr>"
      have retry: "retry_with_backoff asyncio_sleep (fetch_endpoint get ep) (max_retries s) (1 / 10) ?sa
              = (Inr data, s3)" using succeeded(2) by simp
      from retry_with_backoff_io_only[OF retry]
      have keep: "successful_d s3 = successful_d s" "failed_d s3 = failed_d s"
        "timeout s3 = timeout s" "completed s3 = completed s"
        unfolding io_only_def by auto
      let ?info = "ProgressInfo (completed s3 + 1) tot ep True None"
      let ?s5 = "s3\<lparr>successful_d := (successful_d s3)(ep \<mapsto> data),
             circuit_breaker := record_success (circuit_breaker s3) ep,
             trace := trace s3 @ [RecordSuccess ep],
             completed := completed s3 + 1\<rparr>"
      from t succeeded(1) retry
      have cp: "call_progress on_progress ?info ?s5 = (rt, s2)"
        by (simp add: fetch_one_try_def Let_def log_ev_def)
      note k = progress_only_keeps[OF call_progress_effect(1)[OF cp]]
      note pr = call_progress_result[OF cp]
      have sa: "timeout ?sa = timeout s" by simp
      show ?thesis
      proof (cases rt)
        case (Inr u)
        with ok have e: "r = Inr ()" "s' = s2" by simp_all
        have "\<exists>data info s1 s2. pi_success info \<and> progress_result on_progress info = Inr ()
           \<and> r = Inr () \<and> timeout s1 = timeout s
           \<and> retry_with_backoff asyncio_sleep (fetch_endpoint get ep) (max_retries s) (1 / 10) s1
                = (Inr data, s2)
           \<and> successful_d s' = (successful_d s)(ep \<mapsto> data) \<and> failed_d s' = failed_d s"
          using e pr Inr k keep retry sa
          by (intro exI[of _ data] exI[of _ ?info] exI[of _ ?sa] exI[of _ s3]) simp
        moreover have "timeout s' = timeout s" using e k keep by simp
        ultimately show ?thesis by simp
      next
        case (Inl e)
        from handler[OF Inl] obtain info2 where
          h: "\<not> pi_success info2" "r = progress_result on_progress info2"
            "failed_d s' = (failed_d s2)(ep \<mapsto> str_exn e)" "successful_d s' = successful_d s2"
            "timeout s' = timeout s2" by blast
        have "\<exists>data info e info2 s1 s2. pi_success info \<and> progress_result on_progress info = Inl e
           \<and> \<not> pi_success info2 \<and> r = progress_result on_progress info2
           \<and> timeout s1 = timeout s
           \<and> retry_with_backoff asyncio_sleep (fetch_endpoint get ep) (max_retries s) (1 / 10) s1
                = (Inr data, s2)
           \<and> successful_d s' = (successful_d s)(ep \<mapsto> data)
           \<and> failed_d s' = (failed_d s)(ep \<mapsto> str_exn e)"
          using h pr Inl k keep retry sa
          by (intro exI[of _ data] exI[of _ ?info] exI[of _ e] exI[of _ info2] exI[of _ ?sa]
                exI[of _ s3]) simp
        moreover have "timeout s' = timeout s" using h(5) k keep by simp
        ultimately show ?thesis by simp
      qed
    qed
  qed
qed





lemma fetch_one_timeout:
  "fetch_one fuel get on_progress tot ep s = Some (r, s') \<Longrightarrow> timeout s' = timeout s"
  using fetch_one_outcome[of fuel get on_progress tot ep s r s'] by simp

lemma gather_timeout:
  "gather fuel get on_progress tot eps s = Some (r, s') \<Longrightarrow> timeout s' = timeout s"
proof (induction eps arbitrary: s)
  case Nil
  then show ?case by simp
next
  case (Cons ep0 eps)
  from Cons.prems obtain r1 s1 where f: "fetch_one fuel get on_progress tot ep0 s = Some (r1, s1)"
    by (cases "fetch_one fuel get on_progress tot ep0 s") auto
  show ?case
  proof (cases r1)
    case (Inl e)
    with Cons.prems f fetch_one_timeout[OF f] show ?thesis by simp
  next
    case (Inr u)
    with Cons.prems f have "gather fuel get on_progress tot eps s1 = Some (r, s')" by simp
    from Cons.IH[OF this] fetch_one_timeout[OF f] show ?thesis by simp
  qed
qed



















section \<open>The claims\<close>

subsection \<open>C1: the result partitions the endpoints\<close>

text \<open>
  Claim C1, as amended. Whenever \<^verbatim>\<open>fetch_all\<close> returns a result (with MCP: the progress
  callback, if any, does not raise), the keys of \<open>successful\<close> and \<open>failed\<close> together are
  the set of the input endpoints; when the input endpoints are pairwise distinct, the two
  key sets are disjoint and their sizes add up to the number of endpoints.
\<close>

theorem fetch_all_partitions_endpoints:
  "(never_raises on_progress \<and> fetch_all fuel get on_progress endpoints s = Some (Inr r, s') \<longrightarrow>
      dom (successful r) \<union> dom (failed r) = set endpoints
      \<and> (distinct endpoints \<longrightarrow>
           dom (successful r) \<inter> dom (failed r) = {}
           \<and> success_count r + failure_count_of r = length endpoints))
   \<and> (fetch_all_nomcp fetcher on_progress_n endpoints sn = (Inr rn, sn') \<longrightarrow>
      dom (successful rn) \<union> dom (failed rn) = set endpoints
      \<and> (distinct endpoints \<longrightarrow>
           dom (successful rn) \<inter> dom (failed rn) = {}
           \<and> success_count rn + failure_count_of rn = length endpoints))"
proof (intro conjI impI)
  assume a: "never_raises on_progress \<and> fetch_all fuel get on_progress endpoints s = Some (Inr r, s')"
  let ?s0 = "s\<lparr>successful_d := Map.empty, failed_d := Map.empty, completed := 0\<rparr>"
  from a obtain u where
    g: "gather fuel get on_progress (int (length endpoints)) endpoints ?s0 = Some (Inr u, s')"
    and r: "successful r = successful_d s'" "failed r = failed_d s'"
    by (auto simp: fetch_all_def Let_def split: option.splits sum.splits)
  from gather_dicts[OF _ g] a r
  show u: "dom (successful r) \<union> dom (failed r) = set endpoints" by simp
  assume d: "distinct endpoints"
  from gather_dicts[OF _ g] a r d
  show i: "dom (successful r) \<inter> dom (failed r) = {}" by simp
  from keys_count[OF u i d]
  show "success_count r + failure_count_of r = length endpoints"
    by (simp add: success_count_def failure_count_of_def)
next
  assume a: "fetch_all_nomcp fetcher on_progress_n endpoints sn = (Inr rn, sn')"
  from a obtain rs s1 where g: "gather_nomcp fetcher endpoints sn = (Inr rs, s1)"
    by (cases "gather_nomcp fetcher endpoints sn")
       (auto simp: fetch_all_nomcp_def Let_def split: sum.splits)
  with a obtain succ fl where
    c: "collect_nomcp on_progress_n (int (length endpoints)) rs Map.empty Map.empty 0 s1
          = (Inr (succ, fl), sn')"
    and r: "successful rn = succ" "failed rn = fl"
    by (auto simp: fetch_all_nomcp_def Let_def split: prod.splits sum.splits)
  note e = gather_nomcp_endpoints[OF g]
  from collect_nomcp_dicts[OF c] r e
  show u: "dom (successful rn) \<union> dom (failed rn) = set endpoints" by simp
  assume d: "distinct endpoints"
  from collect_nomcp_dicts[OF c] r e d
  show i: "dom (successful rn) \<inter> dom (failed rn) = {}" by simp
  from keys_count[OF u i d]
  show "success_count rn + failure_count_of rn = length endpoints"
    by (simp add: success_count_def failure_count_of_def)
qed

theorem fetch_all_partitions_endpoints_witness:
  "never_raises None
   \<and> distinct [''http://api1.com'', ''http://api2.com'', ''http://api3.com'']
   \<and> result_of (fetch_all 1 (mock_client [''http://api2.com'']) None
         [''http://api1.com'', ''http://api2.com'', ''http://api3.com'']
         (aggregator () 10 5 1 5 30)) \<noteq> None
   \<and> success_count (the (result_of (fetch_all 1 (mock_client [''http://api2.com'']) None
         [''http://api1.com'', ''http://api2.com'', ''http://api3.com'']
         (aggregator () 10 5 1 5 30))))
       + failure_count_of (the (result_of (fetch_all 1 (mock_client [''http://api2.com'']) None
         [''http://api1.com'', ''http://api2.com'', ''http://api3.com'']
         (aggregator () 10 5 1 5 30))))
       = length [''http://api1.com'', ''http://api2.com'', ''http://api3.com'']
   \<and> success_count (the (result_of (Some (fetch_all_nomcp (Some (mock_fetcher [''http://fail.com''])) None
         [''http://api1.com'', ''http://fail.com'', ''http://api2.com'']
         (aggregator_nomcp () 10 3 1 5 (1 / 10))))))
       + failure_count_of (the (result_of (Some (fetch_all_nomcp (Some (mock_fetcher [''http://fail.com''])) None
         [''http://api1.com'', ''http://fail.com'', ''http://api2.com'']
         (aggregator_nomcp () 10 3 1 5 (1 / 10))))))
       = length [''http://api1.com'', ''http://fail.com'', ''http://api2.com'']"
proof -
  let ?eps = "[''http://api1.com'', ''http://api2.com'', ''http://api3.com'']"
  let ?epn = "[''http://api1.com'', ''http://fail.com'', ''http://api2.com'']"
  let ?w = "fetch_all 1 (mock_client [''http://api2.com'']) None ?eps (aggregator () 10 5 1 5 30)"
  let ?n = "fetch_all_nomcp (Some (mock_fetcher [''http://fail.com''])) None ?epn
              (aggregator_nomcp () 10 3 1 5 (1 / 10))"
  have h0: "never_raises None" by (simp add: never_raises_def)
  have d: "distinct ?eps" "distinct ?epn" by simp_all
  have "\<exists>r s'. ?w = Some (Inr r, s')" by (simp add: w_eval mock_client_def)
  then obtain r s' where w: "?w = Some (Inr r, s')" by blast
  have "\<exists>rn sn'. ?n = (Inr rn, sn')" by (simp add: n_eval mock_fetcher_def)
  then obtain rn sn' where n: "?n = (Inr rn, sn')" by blast
  have r: "result_of ?w = Some r" "result_of (Some ?n) = Some rn"
    using w n by (simp_all add: result_of_def)
  note T = fetch_all_partitions_endpoints[of None 1 "mock_client [''http://api2.com'']" ?eps
      "aggregator () 10 5 1 5 30" r s']
  note Tn = fetch_all_partitions_endpoints[of None 1 "mock_client [''http://api2.com'']" ?epn
      "aggregator () 10 5 1 5 30" r s' "Some (mock_fetcher [''http://fail.com''])" None
      "aggregator_nomcp () 10 3 1 5 (1 / 10)" rn sn']
  from conjunct1[OF T, THEN mp, OF conjI[OF h0 w]] d(1)
  have a: "success_count r + failure_count_of r = length ?eps" by blast
  from conjunct2[OF Tn, THEN mp, OF n] d(2)
  have b: "success_count rn + failure_count_of rn = length ?epn" by blast
  show ?thesis using h0 d(1) a b unfolding r by simp
qed

text \<open>
  The claim as stated fails for a list that names an endpoint twice: both tasks write the
  same key, and the result has one entry for two endpoints. With MCP it also fails for a
  single endpoint when the progress callback raises on the report of a success: the
  exception is caught by the task's own handler, which stores the endpoint in \<open>failed\<close>
  after it was stored in \<open>successful\<close>.
\<close>

theorem duplicate_endpoints_counterexample:
  "map_option total_count (result_of (fetch_all 1 always_ok None
       [''http://api1.com'', ''http://api1.com''] (aggregator () 10 5 3 5 30))) = Some 1
   \<and> map_option total_count (result_of (Some (fetch_all_nomcp (Some fetcher_ok) None
       [''http://api1.com'', ''http://api1.com''] (aggregator_nomcp () 10 3 1 5 (1 / 10))))) = Some 1
   \<and> length [''http://api1.com'', ''http://api1.com''] = 2
   \<and> map_option total_count (result_of (fetch_all 1 always_ok (Some raise_on_success)
       [''http://api1.com''] (aggregator () 10 5 3 5 30))) = Some 2
   \<and> length [''http://api1.com''] = 1"
  by (simp add: w_eval n_eval always_ok_def fetcher_ok_def total_count_def success_count_def
        failure_count_of_def raise_on_success_def)

subsection \<open>C2: rate-limiter tokens and the breaker check within one fetch\<close>

text \<open>
  Claim C2, as amended. In both implementations the breaker is asked exactly once per
  fetch of an endpoint, as the first thing the task does. Without MCP every attempt calls
  \<^verbatim>\<open>acquire\<close> directly before the transport (\<open>gated\<close>). With MCP \<^verbatim>\<open>acquire\<close> is called
  at most once per fetch, before the whole retry sequence: when the transport is called at
  all, the events after the check begin with the one \<^verbatim>\<open>acquire\<close>, and retries do not
  acquire again.
\<close>

theorem token_per_attempt_and_single_check:
  "(fetch_one_nomcp fetcher ep sn = (res, sn') \<longrightarrow>
      (\<exists>evs. trace_nomcp sn' = trace_nomcp sn @ BreakerCheck ep # evs
             \<and> filter is_check evs = [] \<and> gated evs))
   \<and> (fetch_one fuel get on_progress tot ep s = Some (r, s') \<longrightarrow>
      (\<exists>evs. trace s' = trace s @ BreakerCheck ep # evs
             \<and> filter is_check evs = []
             \<and> length (filter is_acquire evs) \<le> 1
             \<and> (filter is_transport evs \<noteq> [] \<longrightarrow> (\<exists>rest. evs = Acquire # rest))))"
proof (intro conjI impI)
  assume a: "fetch_one_nomcp fetcher ep sn = (res, sn')"
  from fetch_one_nomcp_trace[OF a]
  show "\<exists>evs. trace_nomcp sn' = trace_nomcp sn @ BreakerCheck ep # evs
             \<and> filter is_check evs = [] \<and> gated evs"
    by (elim conjE disjE exE)
       (auto simp: filter_failed_attempts_log gated_failed_attempts_log gated_append)
next
  assume a: "fetch_one fuel get on_progress tot ep s = Some (r, s')"
  from a show "\<exists>evs. trace s' = trace s @ BreakerCheck ep # evs
             \<and> filter is_check evs = []
             \<and> length (filter is_acquire evs) \<le> 1
             \<and> (filter is_transport evs \<noteq> [] \<longrightarrow> (\<exists>rest. evs = Acquire # rest))"
  proof (cases rule: fetch_one_cases)
    case (short_circuit cb')
    then obtain prog where p: "list_all is_progress prog"
      "trace s' = trace s @ BreakerCheck ep # prog"
      unfolding progress_only_def by auto
    have "filter is_check prog = []" "filter is_acquire prog = []" "filter is_transport prog = []"
      using p(1) by (auto intro: filter_none simp: progress_not)
    with p(2) show ?thesis by (intro exI[of _ prog]) simp
  next
    case (failure cb' e io prog)
    have "filter is_check prog = []" "filter is_acquire prog = []"
      "filter is_check io = []" "filter is_acquire io = []"
      using failure(2,3) by (auto intro: filter_none simp: progress_not io_not)
    with failure(4) show ?thesis
      by (intro exI[of _ "Acquire # io @ RecordFailure ep # prog"]) simp
  next
    case (success cb' data io prog)
    have "filter is_check prog = []" "filter is_acquire prog = []"
      "filter is_check io = []" "filter is_acquire io = []"
      using success(2,3) by (auto intro: filter_none simp: progress_not io_not)
    with success(4) show ?thesis
      by (intro exI[of _ "Acquire # io @ RecordSuccess ep # prog"]) simp
  next
    case (callback_raised cb' data e io p1 p2)
    have "filter is_check p1 = []" "filter is_acquire p1 = []"
      "filter is_check p2 = []" "filter is_acquire p2 = []"
      "filter is_check io = []" "filter is_acquire io = []"
      using callback_raised(3,4,5) by (auto intro: filter_none simp: progress_not io_not)
    with callback_raised(6) show ?thesis
      by (intro exI[of _ "Acquire # io @ RecordSuccess ep # p1 @ RecordFailure ep # p2"]) simp
  qed
qed

theorem token_per_attempt_and_single_check_witness:
  "(\<exists>evs. trace_nomcp (snd (fetch_one_nomcp (Some flaky_fetcher) ''http://flaky.com''
                (aggregator_nomcp (0::nat) 10 3 1 5 (1 / 10)))) =
            trace_nomcp (aggregator_nomcp (0::nat) 10 3 1 5 (1 / 10))
              @ BreakerCheck ''http://flaky.com'' # evs
          \<and> filter is_check evs = [] \<and> gated evs)
   \<and> fetch_one 1 flaky_client None 1 ''http://flaky.com'' (aggregator (0::nat) 10 5 3 5 30) \<noteq> None
   \<and> (\<exists>evs. trace (snd (the (fetch_one 1 flaky_client None 1 ''http://flaky.com''
                (aggregator (0::nat) 10 5 3 5 30)))) =
            trace (aggregator (0::nat) 10 5 3 5 30) @ BreakerCheck ''http://flaky.com'' # evs
          \<and> filter is_check evs = []
          \<and> length (filter is_acquire evs) \<le> 1)"
proof -
  let ?n = "fetch_one_nomcp (Some flaky_fetcher) ''http://flaky.com''
              (aggregator_nomcp (0::nat) 10 3 1 5 (1 / 10))"
  let ?w = "fetch_one 1 flaky_client None 1 ''http://flaky.com'' (aggregator (0::nat) 10 5 3 5 30)"
  have h1: "?n = (fst ?n, snd ?n)" by simp
  have h2: "?w \<noteq> None" by (simp add: w_eval flaky_client_def flaky_get_def)
  then have h3: "?w = Some (fst (the ?w), snd (the ?w))" by simp
  note T = token_per_attempt_and_single_check[of "Some flaky_fetcher" "''http://flaky.com''"
      "aggregator_nomcp (0::nat) 10 3 1 5 (1 / 10)" "fst ?n" "snd ?n" 1 flaky_client None 1
      "aggregator (0::nat) 10 5 3 5 30" "fst (the ?w)" "snd (the ?w)"]
  note a = conjunct1[OF T, THEN mp, OF h1]
  note b = conjunct2[OF T, THEN mp, OF h3]
  show ?thesis using a h2 b by blast
qed

text \<open>
  The claim as stated fails with MCP: with the transport of \<^verbatim>\<open>test_retry_logic\<close> and
  three attempts, the transport is called three times after a single \<^verbatim>\<open>acquire\<close>.
\<close>

theorem retry_without_acquire_counterexample:
  "map_option trace (state_of (fetch_all 1 flaky_client None [''http://flaky.com'']
       (aggregator (0::nat) 10 5 3 5 30))) =
     Some [BreakerCheck ''http://flaky.com'', Acquire,
           TransportCall ''http://flaky.com'', Sleep (1 / 10),
           TransportCall ''http://flaky.com'', Sleep (1 / 5),
           TransportCall ''http://flaky.com'', RecordSuccess ''http://flaky.com'']
   \<and> \<not> gated [Acquire,
           TransportCall ''http://flaky.com'', Sleep (1 / 10),
           TransportCall ''http://flaky.com'', Sleep (1 / 5),
           TransportCall ''http://flaky.com'', RecordSuccess ''http://flaky.com'']"
  by (simp add: w_eval flaky_client_def flaky_get_def)

subsection \<open>C3: breaker recordings per fetch\<close>

text \<open>
  Claim C3, as amended. With MCP, for a fetch that the breaker admitted and whose progress
  callback (if any) does not raise, exactly one recording is made, after the retry
  sequence: \<^verbatim>\<open>record_success\<close> when the endpoint was stored in \<open>successful\<close>,
  \<^verbatim>\<open>record_failure\<close> when it was stored in \<open>failed\<close>. Without MCP every attempt makes one
  recording of its own: \<open>k\<close> failed attempts record \<open>k\<close> failures, followed by one
  success if the last attempt succeeded (also in a fetch that the overflow of the back-off
  ends after more than 1024 failed attempts).
\<close>

theorem one_recording_per_fetch:
  "(never_raises on_progress \<and> fetch_one fuel get on_progress tot ep s = Some (r, s')
      \<and> \<not> fst (is_open (clock s) (circuit_breaker s) ep) \<longrightarrow>
      (\<exists>evs. trace s' = trace s @ evs \<and>
         ((filter is_recording evs = [RecordSuccess ep]
             \<and> (\<exists>data. successful_d s' = (successful_d s)(ep \<mapsto> data))
             \<and> failed_d s' = failed_d s)
          \<or> (filter is_recording evs = [RecordFailure ep]
             \<and> (\<exists>e. failed_d s' = (failed_d s)(ep \<mapsto> str_exn e))
             \<and> successful_d s' = successful_d s))))
   \<and> (fetch_one_nomcp fetcher ep sn = (res, sn')
      \<and> is_available_nomcp (clock_nomcp sn) (fst (get_circuit_breaker ep sn)) \<longrightarrow>
      (\<exists>evs k. trace_nomcp sn' = trace_nomcp sn @ evs
         \<and> length (filter is_acquire evs) = length (filter is_recording evs)
         \<and> (((\<exists>v. res = Inr (ep, v, None)) \<and> k < nat (max_retries_nomcp sn)
               \<and> filter is_recording evs = replicate k (RecordFailure ep) @ [RecordSuccess ep])
            \<or> ((\<exists>err. res = Inr (ep, JNone, err) \<and> (k = 0 \<longleftrightarrow> err = None))
               \<and> k = nat (max_retries_nomcp sn)
               \<and> filter is_recording evs = replicate k (RecordFailure ep))
            \<or> (res = Inl OverflowError \<and> 1024 < k
               \<and> filter is_recording evs = replicate k (RecordFailure ep)))))"
proof (intro conjI impI)
  assume a: "never_raises on_progress \<and> fetch_one fuel get on_progress tot ep s = Some (r, s')
      \<and> \<not> fst (is_open (clock s) (circuit_breaker s) ep)"
  then have f: "fetch_one fuel get on_progress tot ep s = Some (r, s')"
    and nr: "never_raises on_progress"
    and adm: "\<not> fst (is_open (clock s) (circuit_breaker s) ep)" by simp_all
  from f show "\<exists>evs. trace s' = trace s @ evs \<and>
         ((filter is_recording evs = [RecordSuccess ep]
             \<and> (\<exists>data. successful_d s' = (successful_d s)(ep \<mapsto> data))
             \<and> failed_d s' = failed_d s)
          \<or> (filter is_recording evs = [RecordFailure ep]
             \<and> (\<exists>e. failed_d s' = (failed_d s)(ep \<mapsto> str_exn e))
             \<and> successful_d s' = successful_d s))"
  proof (cases rule: fetch_one_cases)
    case (short_circuit cb')
    with adm show ?thesis by simp
  next
    case (failure cb' e io prog)
    have "filter is_recording prog = []" "filter is_recording io = []"
      using failure(2,3) by (auto intro: filter_none simp: progress_not io_not)
    with failure(4,5,6) show ?thesis
      by (intro exI[of _ "BreakerCheck ep # Acquire # io @ RecordFailure ep # prog"]) auto
  next
    case (success cb' data io prog)
    have "filter is_recording prog = []" "filter is_recording io = []"
      using success(2,3) by (auto intro: filter_none simp: progress_not io_not)
    with success(4,5,6) show ?thesis
      by (intro exI[of _ "BreakerCheck ep # Acquire # io @ RecordSuccess ep # prog"]) auto
  next
    case (callback_raised cb' data e io p1 p2)
    with nr show ?thesis by simp
  qed
next
  assume a: "fetch_one_nomcp fetcher ep sn = (res, sn')
      \<and> is_available_nomcp (clock_nomcp sn) (fst (get_circuit_breaker ep sn))"
  let ?M = "max_retries_nomcp sn"
  from fetch_one_nomcp_trace[OF conjunct1[OF a]] conjunct2[OF a]
  obtain fails where
    f: "(\<exists>v. res = Inr (ep, v, None) \<and> length fails < nat ?M \<and>
                trace_nomcp sn' = trace_nomcp sn @ BreakerCheck ep
                   # failed_attempts_log ep ?M 0 fails
                   @ [Acquire, TransportCall ep, RecordSuccess ep])
           \<or> (\<exists>err. res = Inr (ep, JNone, err) \<and> length fails = nat ?M
                \<and> (fails = [] \<longleftrightarrow> err = None)
                \<and> trace_nomcp sn' = trace_nomcp sn @ BreakerCheck ep
                   # failed_attempts_log ep ?M 0 fails)
           \<or> (\<exists>called. res = Inl OverflowError \<and> 1024 \<le> length fails
                \<and> length fails < nat ?M - 1
                \<and> trace_nomcp sn' = trace_nomcp sn @ BreakerCheck ep
                   # failed_attempts_log ep ?M 0 fails
                   @ Acquire # (if called then [TransportCall ep] else []) @ [RecordFailure ep])"
    by auto
  then show "\<exists>evs k. trace_nomcp sn' = trace_nomcp sn @ evs
         \<and> length (filter is_acquire evs) = length (filter is_recording evs)
         \<and> (((\<exists>v. res = Inr (ep, v, None)) \<and> k < nat ?M
               \<and> filter is_recording evs = replicate k (RecordFailure ep) @ [RecordSuccess ep])
            \<or> ((\<exists>err. res = Inr (ep, JNone, err) \<and> (k = 0 \<longleftrightarrow> err = None))
               \<and> k = nat ?M
               \<and> filter is_recording evs = replicate k (RecordFailure ep))
            \<or> (res = Inl OverflowError \<and> 1024 < k
               \<and> filter is_recording evs = replicate k (RecordFailure ep)))"
  proof (elim disjE exE conjE)
    fix v
    assume "res = Inr (ep, v, None)" "length fails < nat ?M"
      "trace_nomcp sn' = trace_nomcp sn @ BreakerCheck ep
                   # failed_attempts_log ep ?M 0 fails
                   @ [Acquire, TransportCall ep, RecordSuccess ep]"
    then show ?thesis
      by (intro exI[of _ "BreakerCheck ep # failed_attempts_log ep ?M 0 fails
                   @ [Acquire, TransportCall ep, RecordSuccess ep]"] exI[of _ "length fails"])
         (simp add: filter_failed_attempts_log)
  next
    fix err
    assume "res = Inr (ep, JNone, err)" "length fails = nat ?M" "(fails = []) = (err = None)"
      "trace_nomcp sn' = trace_nomcp sn @ BreakerCheck ep
                   # failed_attempts_log ep ?M 0 fails"
    then show ?thesis
      by (intro exI[of _ "BreakerCheck ep # failed_attempts_log ep ?M 0 fails"]
            exI[of _ "length fails"])
         (auto simp add: filter_failed_attempts_log)
  next
    fix called
    assume "res = Inl OverflowError" "1024 \<le> length fails" "length fails < nat ?M - 1"
      "trace_nomcp sn' = trace_nomcp sn @ BreakerCheck ep
                   # failed_attempts_log ep ?M 0 fails
                   @ Acquire # (if called then [TransportCall ep] else []) @ [RecordFailure ep]"
    then show ?thesis
      by (intro exI[of _ "BreakerCheck ep # failed_attempts_log ep ?M 0 fails
                   @ Acquire # (if called then [TransportCall ep] else []) @ [RecordFailure ep]"]
            exI[of _ "Suc (length fails)"])
         (simp add: filter_failed_attempts_log replicate_append_same)
  qed
qed

theorem one_recording_per_fetch_witness:
  "never_raises None
   \<and> fetch_one 1 flaky_client None 1 ''http://flaky.com'' (aggregator (0::nat) 10 5 3 5 30) \<noteq> None
   \<and> \<not> fst (is_open (clock (aggregator (0::nat) 10 5 3 5 30))
              (circuit_breaker (aggregator (0::nat) 10 5 3 5 30)) ''http://flaky.com'')
   \<and> is_available_nomcp (clock_nomcp (aggregator_nomcp (0::nat) 10 3 1 5 (1 / 10)))
        (fst (get_circuit_breaker ''http://flaky.com'' (aggregator_nomcp (0::nat) 10 3 1 5 (1 / 10))))
   \<and> (\<exists>evs. trace (snd (the (fetch_one 1 flaky_client None 1 ''http://flaky.com''
                 (aggregator (0::nat) 10 5 3 5 30)))) =
               trace (aggregator (0::nat) 10 5 3 5 30) @ evs
             \<and> filter is_recording evs = [RecordSuccess ''http://flaky.com''])
   \<and> (\<exists>evs. trace_nomcp (snd (fetch_one_nomcp (Some flaky_fetcher) ''http://flaky.com''
                 (aggregator_nomcp (0::nat) 10 3 1 5 (1 / 10)))) =
               trace_nomcp (aggregator_nomcp (0::nat) 10 3 1 5 (1 / 10)) @ evs
             \<and> length (filter is_acquire evs) = length (filter is_recording evs))"
proof -
  let ?s = "aggregator (0::nat) 10 5 3 5 30" and ?sn = "aggregator_nomcp (0::nat) 10 3 1 5 (1 / 10)"
  let ?w = "fetch_one 1 flaky_client None 1 ''http://flaky.com'' ?s"
  let ?n = "fetch_one_nomcp (Some flaky_fetcher) ''http://flaky.com'' ?sn"
  have h0: "never_raises None" by (simp add: never_raises_def)
  have h1: "?w \<noteq> None" by (simp add: w_eval flaky_client_def flaky_get_def)
  then have h2: "?w = Some (fst (the ?w), snd (the ?w))" by simp
  have h3: "\<not> fst (is_open (clock ?s) (circuit_breaker ?s) ''http://flaky.com'')"
    by (simp add: w_eval)
  have h4: "?n = (fst ?n, snd ?n)" by simp
  have h5: "is_available_nomcp (clock_nomcp ?sn) (fst (get_circuit_breaker ''http://flaky.com'' ?sn))"
    by (simp add: n_eval)
  have ok: "successful_d (snd (the ?w)) ''http://flaky.com'' \<noteq> None"
    "failed_d (snd (the ?w)) ''http://flaky.com'' = None"
    by (simp_all add: w_eval flaky_client_def flaky_get_def)
  have s0: "failed_d ?s = Map.empty" by (simp add: w_eval)
  note T = one_recording_per_fetch[of None 1 flaky_client 1 "''http://flaky.com''" ?s
      "fst (the ?w)" "snd (the ?w)" "Some flaky_fetcher" ?sn "fst ?n" "snd ?n"]
  from conjunct1[OF T, THEN mp, OF conjI[OF h0 conjI[OF h2 h3]]] ok s0
  have a: "\<exists>evs. trace (snd (the ?w)) = trace ?s @ evs
             \<and> filter is_recording evs = [RecordSuccess ''http://flaky.com'']"
    by (metis fun_upd_same option.distinct(1))
  from conjunct2[OF T, THEN mp, OF conjI[OF h4 h5]]
  have b: "\<exists>evs. trace_nomcp (snd ?n) = trace_nomcp ?sn @ evs
             \<and> length (filter is_acquire evs) = length (filter is_recording evs)"
    by blast
  show ?thesis using h0 h1 h3 h5 a b by blast
qed

text \<open>
  The claim as stated fails without MCP: the fetch of \<^verbatim>\<open>test_retry_logic\<close> succeeds
  at the third attempt and has recorded two failures before its success. With MCP it
  fails when the progress callback raises on the report of a success: the task records
  the success and then, in its handler, a failure.
\<close>

theorem recording_per_attempt_counterexample:
  "fst (fetch_one_nomcp (Some flaky_fetcher) ''http://flaky.com''
          (aggregator_nomcp (0::nat) 10 3 1 5 (1 / 10))) =
     Inr (''http://flaky.com'', JDict [(''data'', JStr ''success'')], None)
   \<and> filter is_recording (trace_nomcp (snd (fetch_one_nomcp (Some flaky_fetcher)
          ''http://flaky.com'' (aggregator_nomcp (0::nat) 10 3 1 5 (1 / 10))))) =
     [RecordFailure ''http://flaky.com'', RecordFailure ''http://flaky.com'',
      RecordSuccess ''http://flaky.com'']
   \<and> map_option (filter is_recording) (map_option trace (state_of
          (fetch_one 1 always_ok (Some raise_on_success) 1 ''http://api1.com''
             (aggregator () 10 5 3 5 30)))) =
     Some [RecordSuccess ''http://api1.com'', RecordFailure ''http://api1.com'']"
  by (simp add: n_eval w_eval flaky_fetcher_def flaky_get_def always_ok_def raise_on_success_def)

subsection \<open>C4: an endpoint whose breaker is open\<close>

text \<open>
  Claim C4, as amended: the claim with the reason text of the code, which is
  \<^verbatim>\<open>"Circuit breaker open"\<close>. When the breaker reports the endpoint unavailable at the
  start of its task, the endpoint is stored in \<open>failed\<close> with that text, the rate limiter
  and the transport are left as they were, and the task's events are the breaker check
  and the progress report only: no \<^verbatim>\<open>acquire\<close>, no transport call, no sleep. With a
  failure threshold of 1 and an endpoint not seen before: after a \<^verbatim>\<open>fetch_all\<close> of the
  endpoint that ended with the endpoint in \<open>failed\<close>, a second \<^verbatim>\<open>fetch_all\<close> \<open>d\<close> seconds
  later, \<open>d\<close> below the recovery time, returns exactly that failure, with any transport
  and without changing it. Both implementations.
\<close>

theorem circuit_open_short_circuits:
  "(fst (is_open (clock s) (circuit_breaker s) ep) \<longrightarrow>
      (\<exists>r s' prog. fetch_one fuel get on_progress tot ep s = Some (r, s')
         \<and> failed_d s' = (failed_d s)(ep \<mapsto> ''Circuit breaker open'')
         \<and> successful_d s' = successful_d s
         \<and> rate_limiter s' = rate_limiter s \<and> http_client s' = http_client s
         \<and> list_all is_progress prog \<and> trace s' = trace s @ BreakerCheck ep # prog))
   \<and> (\<not> is_available_nomcp (clock_nomcp sn) (fst (get_circuit_breaker ep sn)) \<longrightarrow>
      (\<exists>sn'. fetch_one_nomcp fetcher ep sn = (Inr (ep, JNone, Some ''Circuit breaker open''), sn')
         \<and> rate_limiter_nomcp sn' = rate_limiter_nomcp sn
         \<and> fetcher_state sn' = fetcher_state sn
         \<and> trace_nomcp sn' = trace_nomcp sn @ [BreakerCheck ep]))
   \<and> (states (circuit_breaker t) ep = None \<and> failure_counts (circuit_breaker t) ep = None
        \<and> failure_threshold (circuit_breaker t) = 1
        \<and> never_raises on_progress1 \<and> never_raises on_progress2
        \<and> fetch_all fuel1 get1 on_progress1 [ep] t = Some (Inr r1, t1) \<and> failed r1 ep \<noteq> None
        \<and> d < recovery_timeout (circuit_breaker t) \<longrightarrow>
      (\<exists>r2 t2 prog. fetch_all fuel2 get2 on_progress2 [ep] (t1\<lparr>clock := clock t1 + d\<rparr>)
              = Some (Inr r2, t2)
           \<and> failed r2 = [ep \<mapsto> ''Circuit breaker open''] \<and> successful r2 = Map.empty
           \<and> http_client t2 = http_client t1 \<and> rate_limiter t2 = rate_limiter t1
           \<and> list_all is_progress prog \<and> trace t2 = trace t1 @ BreakerCheck ep # prog))
   \<and> (circuit_breakers tn ep = None \<and> cb_threshold tn = 1
        \<and> never_raises_nomcp on_progress4
        \<and> fetch_all_nomcp fetcher3 on_progress3 [ep] tn = (Inr rn1, tn1) \<and> failed rn1 ep \<noteq> None
        \<and> dn < cb_recovery tn \<longrightarrow>
      (\<exists>rn2 tn2 prog. fetch_all_nomcp fetcher4 on_progress4 [ep]
                (tn1\<lparr>clock_nomcp := clock_nomcp tn1 + dn\<rparr>) = (Inr rn2, tn2)
           \<and> failed rn2 = [ep \<mapsto> ''Circuit breaker open''] \<and> successful rn2 = Map.empty
           \<and> fetcher_state tn2 = fetcher_state tn1
           \<and> rate_limiter_nomcp tn2 = rate_limiter_nomcp tn1
           \<and> list_all is_progress prog
           \<and> trace_nomcp tn2 = trace_nomcp tn1 @ BreakerCheck ep # prog))"
proof (intro conjI impI)
  assume "fst (is_open (clock s) (circuit_breaker s) ep)"
  from fetch_one_short_circuit[OF this, of fuel get on_progress tot]
  obtain r s' prog where f: "fetch_one fuel get on_progress tot ep s = Some (r, s')"
    and p: "list_all is_progress prog"
      "s' = (s\<lparr>trace := trace s @ [BreakerCheck ep],
                   failed_d := (failed_d s)(ep \<mapsto> ''Circuit breaker open''),
                   completed := completed s + 1\<rparr>)\<lparr>trace := (trace s @ [BreakerCheck ep]) @ prog\<rparr>"
    unfolding progress_only_def by auto
  then show "\<exists>r s' prog. fetch_one fuel get on_progress tot ep s = Some (r, s')
         \<and> failed_d s' = (failed_d s)(ep \<mapsto> ''Circuit breaker open'')
         \<and> successful_d s' = successful_d s
         \<and> rate_limiter s' = rate_limiter s \<and> http_client s' = http_client s
         \<and> list_all is_progress prog \<and> trace s' = trace s @ BreakerCheck ep # prog"
    by (intro exI[of _ r] exI[of _ s'] exI[of _ prog]) simp
next
  assume na: "\<not> is_available_nomcp (clock_nomcp sn) (fst (get_circuit_breaker ep sn))"
  obtain cb sb where g: "get_circuit_breaker ep sn = (cb, sb)" by (metis prod.exhaust)
  then have sb: "rate_limiter_nomcp sb = rate_limiter_nomcp sn" "fetcher_state sb = fetcher_state sn"
    "trace_nomcp sb = trace_nomcp sn" "clock_nomcp sb = clock_nomcp sn"
    by (auto simp: get_circuit_breaker_def Let_def split: option.splits)
  from na g sb show "\<exists>sn'. fetch_one_nomcp fetcher ep sn = (Inr (ep, JNone, Some ''Circuit breaker open''), sn')
         \<and> rate_limiter_nomcp sn' = rate_limiter_nomcp sn
         \<and> fetcher_state sn' = fetcher_state sn
         \<and> trace_nomcp sn' = trace_nomcp sn @ [BreakerCheck ep]"
    by (simp add: fetch_one_nomcp_def Let_def log_ev_nomcp_def)
next
  assume a: "states (circuit_breaker t) ep = None \<and> failure_counts (circuit_breaker t) ep = None
        \<and> failure_threshold (circuit_breaker t) = 1
        \<and> never_raises on_progress1 \<and> never_raises on_progress2
        \<and> fetch_all fuel1 get1 on_progress1 [ep] t = Some (Inr r1, t1) \<and> failed r1 ep \<noteq> None
        \<and> d < recovery_timeout (circuit_breaker t)"
  then have thr: "failure_threshold (circuit_breaker t) \<le> 1" by simp
  from a show "\<exists>r2 t2 prog. fetch_all fuel2 get2 on_progress2 [ep] (t1\<lparr>clock := clock t1 + d\<rparr>)
              = Some (Inr r2, t2)
           \<and> failed r2 = [ep \<mapsto> ''Circuit breaker open''] \<and> successful r2 = Map.empty
           \<and> http_client t2 = http_client t1 \<and> rate_limiter t2 = rate_limiter t1
           \<and> list_all is_progress prog \<and> trace t2 = trace t1 @ BreakerCheck ep # prog"
    by (intro second_call_short_circuits[OF _ _ thr, of ep on_progress1 on_progress2 fuel1 get1 r1 t1 d])
       simp_all
next
  assume a: "circuit_breakers tn ep = None \<and> cb_threshold tn = 1
        \<and> never_raises_nomcp on_progress4
        \<and> fetch_all_nomcp fetcher3 on_progress3 [ep] tn = (Inr rn1, tn1) \<and> failed rn1 ep \<noteq> None
        \<and> dn < cb_recovery tn"
  then have thr: "cb_threshold tn \<le> 1" by simp
  from a show "\<exists>rn2 tn2 prog. fetch_all_nomcp fetcher4 on_progress4 [ep]
                (tn1\<lparr>clock_nomcp := clock_nomcp tn1 + dn\<rparr>) = (Inr rn2, tn2)
           \<and> failed rn2 = [ep \<mapsto> ''Circuit breaker open''] \<and> successful rn2 = Map.empty
           \<and> fetcher_state tn2 = fetcher_state tn1
           \<and> rate_limiter_nomcp tn2 = rate_limiter_nomcp tn1
           \<and> list_all is_progress prog
           \<and> trace_nomcp tn2 = trace_nomcp tn1 @ BreakerCheck ep # prog"
    by (intro second_call_short_circuits_nomcp[OF _ thr, of ep on_progress4 fetcher3 on_progress3 rn1 tn1 dn])
       simp_all
qed

theorem circuit_open_short_circuits_witness:
  "states (circuit_breaker (aggregator () 10 5 1 1 30)) ''http://bad.com'' = None
   \<and> failure_counts (circuit_breaker (aggregator () 10 5 1 1 30)) ''http://bad.com'' = None
   \<and> failure_threshold (circuit_breaker (aggregator () 10 5 1 1 30)) = 1
   \<and> never_raises None
   \<and> failed_reason (result_of (fetch_all 1 (mock_client [''http://bad.com'']) None
         [''http://bad.com''] (aggregator () 10 5 1 1 30))) ''http://bad.com'' \<noteq> None
   \<and> 0 < recovery_timeout (circuit_breaker (aggregator () 10 5 1 1 30))
   \<and> fst (is_open
         (clock (the (state_of (fetch_all 1 (mock_client [''http://bad.com'']) None
                   [''http://bad.com''] (aggregator () 10 5 1 1 30)))))
         (circuit_breaker (the (state_of (fetch_all 1 (mock_client [''http://bad.com'']) None
                   [''http://bad.com''] (aggregator () 10 5 1 1 30)))))
         ''http://bad.com'')
   \<and> (\<exists>r s' prog. fetch_one 1 (mock_client [''http://bad.com'']) None 1 ''http://bad.com''
           (the (state_of (fetch_all 1 (mock_client [''http://bad.com'']) None
                   [''http://bad.com''] (aggregator () 10 5 1 1 30)))) = Some (r, s')
         \<and> rate_limiter s' = rate_limiter (the (state_of (fetch_all 1 (mock_client [''http://bad.com''])
                   None [''http://bad.com''] (aggregator () 10 5 1 1 30)))))
   \<and> (\<exists>r2 t2. fetch_all 1 (mock_client [''http://bad.com'']) None [''http://bad.com'']
           ((the (state_of (fetch_all 1 (mock_client [''http://bad.com'']) None
                   [''http://bad.com''] (aggregator () 10 5 1 1 30))))
              \<lparr>clock := clock (the (state_of (fetch_all 1 (mock_client [''http://bad.com'']) None
                   [''http://bad.com''] (aggregator () 10 5 1 1 30)))) + 0\<rparr>) = Some (Inr r2, t2)
         \<and> failed r2 = [''http://bad.com'' \<mapsto> ''Circuit breaker open''])
   \<and> circuit_breakers (aggregator_nomcp () 10 1 5 1 60) ''http://fail.com'' = None
   \<and> cb_threshold (aggregator_nomcp () 10 1 5 1 60) = 1
   \<and> never_raises_nomcp None
   \<and> (0::real) < cb_recovery (aggregator_nomcp () 10 1 5 1 60)
   \<and> failed_reason (result_of (Some (fetch_all_nomcp (Some fetcher_fails) None [''http://fail.com'']
         (aggregator_nomcp () 10 1 5 1 60)))) ''http://fail.com'' \<noteq> None
   \<and> \<not> is_available_nomcp
         (clock_nomcp (snd (fetch_all_nomcp (Some fetcher_fails) None [''http://fail.com'']
            (aggregator_nomcp () 10 1 5 1 60))))
         (fst (get_circuit_breaker ''http://fail.com''
            (snd (fetch_all_nomcp (Some fetcher_fails) None [''http://fail.com'']
               (aggregator_nomcp () 10 1 5 1 60)))))
   \<and> (\<exists>sn'. fetch_one_nomcp (Some fetcher_fails) ''http://fail.com''
           (snd (fetch_all_nomcp (Some fetcher_fails) None [''http://fail.com'']
               (aggregator_nomcp () 10 1 5 1 60)))
         = (Inr (''http://fail.com'', JNone, Some ''Circuit breaker open''), sn'))
   \<and> (\<exists>rn2 tn2. fetch_all_nomcp (Some fetcher_fails) None [''http://fail.com'']
           ((snd (fetch_all_nomcp (Some fetcher_fails) None [''http://fail.com'']
               (aggregator_nomcp () 10 1 5 1 60)))
              \<lparr>clock_nomcp := clock_nomcp (snd (fetch_all_nomcp (Some fetcher_fails) None
                 [''http://fail.com''] (aggregator_nomcp () 10 1 5 1 60))) + 0\<rparr>) = (Inr rn2, tn2)
         \<and> failed rn2 = [''http://fail.com'' \<mapsto> ''Circuit breaker open''])"
proof -
  let ?bad = "''http://bad.com''" and ?fail = "''http://fail.com''"
  let ?t = "aggregator () 10 5 1 1 30" and ?tn = "aggregator_nomcp () 10 1 5 1 60"
  let ?get = "mock_client [?bad]"
  let ?first = "fetch_all 1 ?get None [?bad] ?t"
  let ?firstn = "fetch_all_nomcp (Some fetcher_fails) None [?fail] ?tn"
  have h: "states (circuit_breaker ?t) ?bad = None" "failure_counts (circuit_breaker ?t) ?bad = None"
    "failure_threshold (circuit_breaker ?t) = 1" "0 < recovery_timeout (circuit_breaker ?t)"
    by (simp_all add: w_eval)
  have nr: "never_raises None" "never_raises_nomcp None"
    by (simp_all add: never_raises_def never_raises_nomcp_def)
  have "\<exists>r1 t1. ?first = Some (Inr r1, t1) \<and> failed r1 ?bad \<noteq> None"
    by (simp add: w_eval mock_client_def)
  then obtain r1 t1 where f: "?first = Some (Inr r1, t1)" and fl: "failed r1 ?bad \<noteq> None" by blast
  then have t1: "the (state_of ?first) = t1" and fr: "failed_reason (result_of ?first) ?bad \<noteq> None"
    by (simp_all add: state_of_def result_of_def failed_reason_def)
  have o: "fst (is_open (clock (the (state_of ?first))) (circuit_breaker (the (state_of ?first))) ?bad)"
    by (simp add: w_eval mock_client_def)
  have hn: "circuit_breakers ?tn ?fail = None" "cb_threshold ?tn = 1" "(0::real) < cb_recovery ?tn"
    by (simp_all add: n_eval)
  have "\<exists>rn1 tn1. ?firstn = (Inr rn1, tn1) \<and> failed rn1 ?fail \<noteq> None"
    by (simp add: n_eval fetcher_fails_def)
  then obtain rn1 tn1 where fn: "?firstn = (Inr rn1, tn1)" and fln: "failed rn1 ?fail \<noteq> None"
    by blast
  then have tn1: "snd ?firstn = tn1"
    and frn: "failed_reason (result_of (Some ?firstn)) ?fail \<noteq> None"
    by (simp_all add: result_of_def failed_reason_def)
  have na: "\<not> is_available_nomcp (clock_nomcp (snd ?firstn))
              (fst (get_circuit_breaker ?fail (snd ?firstn)))"
    by (simp add: n_eval fetcher_fails_def)
  note T = circuit_open_short_circuits[where s = t1 and ep = ?bad and fuel = 1 and get = ?get
      and on_progress = None and tot = 1 and t = ?t and ?on_progress1.0 = None
      and ?on_progress2.0 = None and ?fuel1.0 = 1 and ?get1.0 = ?get and ?r1.0 = r1 and ?t1.0 = t1
      and d = 0 and ?fuel2.0 = 1 and ?get2.0 = ?get]
  note Tn = circuit_open_short_circuits[where ep = ?fail and sn = tn1
      and fetcher = "Some fetcher_fails" and tn = ?tn and ?on_progress4.0 = None
      and ?fetcher3.0 = "Some fetcher_fails" and ?on_progress3.0 = None and ?rn1.0 = rn1
      and ?tn1.0 = tn1 and dn = 0 and ?fetcher4.0 = "Some fetcher_fails"]
  note T1 = conjunct1[OF T, THEN mp, OF o[unfolded t1]]
  then have a: "\<exists>r s' prog. fetch_one 1 ?get None 1 ?bad t1 = Some (r, s')
         \<and> rate_limiter s' = rate_limiter t1"
    by (elim exE conjE) (intro exI conjI, assumption+)
  note Tn2 = conjunct1[OF conjunct2[OF Tn], THEN mp, OF na[unfolded tn1]]
  then have b: "\<exists>sn'. fetch_one_nomcp (Some fetcher_fails) ?fail tn1
         = (Inr (?fail, JNone, Some ''Circuit breaker open''), sn')"
    by (elim exE conjE) (intro exI, assumption)
  have hyp3: "states (circuit_breaker ?t) ?bad = None \<and> failure_counts (circuit_breaker ?t) ?bad = None
        \<and> failure_threshold (circuit_breaker ?t) = 1
        \<and> never_raises None \<and> never_raises None
        \<and> ?first = Some (Inr r1, t1) \<and> failed r1 ?bad \<noteq> None
        \<and> 0 < recovery_timeout (circuit_breaker ?t)"
    using h nr(1) f fl by (intro conjI)
  note T3 = conjunct1[OF conjunct2[OF conjunct2[OF T]], THEN mp, OF hyp3]
  then have c: "\<exists>r2 t2. fetch_all 1 ?get None [?bad] (t1\<lparr>clock := clock t1 + 0\<rparr>)
         = Some (Inr r2, t2) \<and> failed r2 = [?bad \<mapsto> ''Circuit breaker open'']"
    by (elim exE conjE) (intro exI conjI, assumption+)
  have hyp4: "circuit_breakers ?tn ?fail = None \<and> cb_threshold ?tn = 1
        \<and> never_raises_nomcp None
        \<and> ?firstn = (Inr rn1, tn1) \<and> failed rn1 ?fail \<noteq> None
        \<and> 0 < cb_recovery ?tn"
    using hn nr(2) fn fln by (intro conjI)
  note Tn4 = conjunct2[OF conjunct2[OF conjunct2[OF Tn]], THEN mp, OF hyp4]
  then have e: "\<exists>rn2 tn2. fetch_all_nomcp (Some fetcher_fails) None [?fail]
           (tn1\<lparr>clock_nomcp := clock_nomcp tn1 + 0\<rparr>) = (Inr rn2, tn2)
         \<and> failed rn2 = [?fail \<mapsto> ''Circuit breaker open'']"
    by (elim exE conjE) (intro exI conjI, assumption+)
  show ?thesis
    unfolding t1 tn1
    using h nr fr[unfolded t1] o[unfolded t1] a c hn frn[unfolded tn1] na[unfolded tn1] b e
    by (intro conjI)
qed

text \<open>
  The reason text of the claim as stated, \<^verbatim>\<open>"circuit breaker open"\<close>, is not the text the
  code stores: the runs of \<^verbatim>\<open>test_aggregator_with_circuit_breaker\<close> (with MCP) and of
  \<^verbatim>\<open>test_circuit_breaker_opens_after_threshold\<close> with threshold 1 (without MCP).
\<close>

theorem circuit_open_reason_counterexample:
  "failed_reason (result_of (fetch_all 1 (mock_client [''http://bad.com'']) None [''http://bad.com'']
       (the (state_of (fetch_all 1 (mock_client [''http://bad.com'']) None [''http://bad.com'']
                         (aggregator () 10 5 1 1 30)))))) ''http://bad.com''
     = Some ''Circuit breaker open''
   \<and> failed_reason (result_of (Some (fetch_all_nomcp (Some fetcher_fails) None [''http://fail.com'']
       (snd (fetch_all_nomcp (Some fetcher_fails) None [''http://fail.com'']
                         (aggregator_nomcp () 10 1 5 1 60)))))) ''http://fail.com''
     = Some ''Circuit breaker open''
   \<and> ''Circuit breaker open'' \<noteq> ''circuit breaker open''"
  by (simp add: w_eval n_eval mock_client_def fetcher_fails_def failed_reason_def)

subsection \<open>C5: a transport that always exceeds the timeout\<close>

text \<open>
  Claim C5, as amended. When every answer of the transport takes at least the timeout,
  each attempt ends in a timeout, which is retried: an admitted fetch with
  \<open>1 \<le> max_retries \<le> 1025\<close> (and a rate limiter from which \<^verbatim>\<open>acquire\<close> returns) calls
  the transport exactly \<open>max_retries\<close> times and ends in \<open>failed\<close>. The reason text is
  \<^verbatim>\<open>"Timeout"\<close> without MCP; with MCP it is \<^verbatim>\<open>str(e)\<close> of the \<^verbatim>\<open>TimeoutError\<close>, the
  empty string. (With more than 1025 attempts the back-off of attempt 1024 overflows; that
  case is left out here.)
\<close>

theorem timeout_is_retried_to_the_end:
  "((\<forall>c u t. timeout s \<le> fst (fst (get c u t))) \<and> max_retries s \<ge> 1
      \<and> max_retries s \<le> 1025 \<and> limiter_ok (clock s) (rate_limiter s) \<and> fuel \<ge> 1
      \<and> \<not> fst (is_open (clock s) (circuit_breaker s) ep) \<longrightarrow>
      (\<exists>r s' evs. fetch_one fuel get on_progress tot ep s = Some (r, s')
           \<and> failed_d s' ep = Some [] \<and> failed_d s' ep = Some (str_exn TimeoutError)
           \<and> successful_d s' = successful_d s
           \<and> trace s' = trace s @ evs
           \<and> length (filter is_transport evs) = nat (max_retries s)
           \<and> filter is_recording evs = [RecordFailure ep]))
   \<and> ((\<forall>c u. timeout_nomcp sn
              \<le> fst (fst ((case fetcher of None \<Rightarrow> default_fetch | Some f \<Rightarrow> f) c u)))
      \<and> max_retries_nomcp sn \<ge> 1 \<and> max_retries_nomcp sn \<le> 1025
      \<and> max_requests_nomcp (rate_limiter_nomcp sn) \<ge> 1
      \<and> is_available_nomcp (clock_nomcp sn) (fst (get_circuit_breaker ep sn)) \<longrightarrow>
      (\<exists>sn' evs. fetch_one_nomcp fetcher ep sn = (Inr (ep, JNone, Some ''Timeout''), sn')
           \<and> trace_nomcp sn' = trace_nomcp sn @ evs
           \<and> length (filter is_transport evs) = nat (max_retries_nomcp sn)
           \<and> length (filter is_recording evs) = nat (max_retries_nomcp sn)))"
proof (intro conjI impI)
  assume a: "(\<forall>c u t. timeout s \<le> fst (fst (get c u t))) \<and> max_retries s \<ge> 1
      \<and> max_retries s \<le> 1025 \<and> limiter_ok (clock s) (rate_limiter s) \<and> fuel \<ge> 1
      \<and> \<not> fst (is_open (clock s) (circuit_breaker s) ep)"
  then have 1: "\<forall>c u t. timeout s \<le> fst (fst (get c u t))"
    and 2: "max_retries s \<ge> 1" "max_retries s \<le> 1025"
    and 3: "limiter_ok (clock s) (rate_limiter s)" and 5: "fuel \<ge> 1"
    and 4: "\<not> fst (is_open (clock s) (circuit_breaker s) ep)"
    by blast+
  from fetch_one_times_out[OF 1 2 3 5 4, of on_progress tot]
  obtain r s' evs where f: "fetch_one fuel get on_progress tot ep s = Some (r, s')"
    "failed_d s' = (failed_d s)(ep \<mapsto> str_exn TimeoutError)"
    "successful_d s' = successful_d s" "trace s' = trace s @ evs"
    "length (filter is_transport evs) = nat (max_retries s)"
    "filter is_recording evs = [RecordFailure ep]" by blast
  then show "\<exists>r s' evs. fetch_one fuel get on_progress tot ep s = Some (r, s')
           \<and> failed_d s' ep = Some [] \<and> failed_d s' ep = Some (str_exn TimeoutError)
           \<and> successful_d s' = successful_d s
           \<and> trace s' = trace s @ evs
           \<and> length (filter is_transport evs) = nat (max_retries s)
           \<and> filter is_recording evs = [RecordFailure ep]"
    by (intro exI[of _ r] exI[of _ s'] exI[of _ evs]) simp
next
  assume a: "(\<forall>c u. timeout_nomcp sn
              \<le> fst (fst ((case fetcher of None \<Rightarrow> default_fetch | Some f \<Rightarrow> f) c u)))
      \<and> max_retries_nomcp sn \<ge> 1 \<and> max_retries_nomcp sn \<le> 1025
      \<and> max_requests_nomcp (rate_limiter_nomcp sn) \<ge> 1
      \<and> is_available_nomcp (clock_nomcp sn) (fst (get_circuit_breaker ep sn))"
  then have 1: "\<forall>c u. timeout_nomcp sn
              \<le> fst (fst ((case fetcher of None \<Rightarrow> default_fetch | Some f \<Rightarrow> f) c u))"
    and 2: "max_retries_nomcp sn \<ge> 1" "max_retries_nomcp sn \<le> 1025"
    and 3: "max_requests_nomcp (rate_limiter_nomcp sn) \<ge> 1"
    and 4: "is_available_nomcp (clock_nomcp sn) (fst (get_circuit_breaker ep sn))"
    by blast+
  from fetch_one_nomcp_times_out[OF 1 3 2 4]
  show "\<exists>sn' evs. fetch_one_nomcp fetcher ep sn = (Inr (ep, JNone, Some ''Timeout''), sn')
           \<and> trace_nomcp sn' = trace_nomcp sn @ evs
           \<and> length (filter is_transport evs) = nat (max_retries_nomcp sn)
           \<and> length (filter is_recording evs) = nat (max_retries_nomcp sn)" .
qed

theorem timeout_is_retried_to_the_end_witness:
  "(\<forall>c u t. timeout (aggregator () 10 (1 / 10) 3 5 30) \<le> fst (fst (too_slow c u t)))
   \<and> max_retries (aggregator () 10 (1 / 10) 3 5 30) \<ge> 1
   \<and> max_retries (aggregator () 10 (1 / 10) 3 5 30) \<le> 1025
   \<and> limiter_ok (clock (aggregator () 10 (1 / 10) 3 5 30))
        (rate_limiter (aggregator () 10 (1 / 10) 3 5 30))
   \<and> (1::nat) \<ge> 1
   \<and> \<not> fst (is_open (clock (aggregator () 10 (1 / 10) 3 5 30))
              (circuit_breaker (aggregator () 10 (1 / 10) 3 5 30)) ''http://slow.com'')
   \<and> (\<exists>r s' evs. fetch_one 1 too_slow None 1 ''http://slow.com''
            (aggregator () 10 (1 / 10) 3 5 30) = Some (r, s')
          \<and> failed_d s' ''http://slow.com'' = Some []
          \<and> trace s' = trace (aggregator () 10 (1 / 10) 3 5 30) @ evs
          \<and> length (filter is_transport evs) = nat 3)
   \<and> (\<forall>c u. timeout_nomcp (aggregator_nomcp () 10 3 1 5 (1 / 10))
               \<le> fst (fst (fetcher_slow c u)))
   \<and> max_retries_nomcp (aggregator_nomcp () 10 3 1 5 (1 / 10)) \<ge> 1
   \<and> max_retries_nomcp (aggregator_nomcp () 10 3 1 5 (1 / 10)) \<le> 1025
   \<and> max_requests_nomcp (rate_limiter_nomcp (aggregator_nomcp () 10 3 1 5 (1 / 10))) \<ge> 1
   \<and> is_available_nomcp (clock_nomcp (aggregator_nomcp () 10 3 1 5 (1 / 10)))
         (fst (get_circuit_breaker ''http://slow.com'' (aggregator_nomcp () 10 3 1 5 (1 / 10))))
   \<and> (\<exists>sn' evs. fetch_one_nomcp (Some fetcher_slow) ''http://slow.com''
            (aggregator_nomcp () 10 3 1 5 (1 / 10))
            = (Inr (''http://slow.com'', JNone, Some ''Timeout''), sn')
          \<and> trace_nomcp sn' = trace_nomcp (aggregator_nomcp () 10 3 1 5 (1 / 10)) @ evs
          \<and> length (filter is_transport evs) = nat 3)"
proof -
  let ?s = "aggregator () 10 (1 / 10) 3 5 30" and ?sn = "aggregator_nomcp () 10 3 1 5 (1 / 10)"
  let ?u = "''http://slow.com''"
  have h1: "\<forall>c u t. timeout ?s \<le> fst (fst (too_slow c u t))"
    by (simp add: w_eval too_slow_def)
  have h2: "max_retries ?s \<ge> 1" "max_retries ?s \<le> 1025"
    "limiter_ok (clock ?s) (rate_limiter ?s)" "(1::nat) \<ge> 1"
    "\<not> fst (is_open (clock ?s) (circuit_breaker ?s) ?u)"
    by (simp_all add: w_eval limiter_ok_def)
  have m: "max_retries ?s = 3" "max_retries_nomcp ?sn = 3" by (simp_all add: w_eval n_eval)
  have n1: "\<forall>c u. timeout_nomcp ?sn
              \<le> fst (fst ((case Some fetcher_slow of None \<Rightarrow> default_fetch | Some f \<Rightarrow> f) c u))"
    by (simp add: n_eval fetcher_slow_def)
  then have n1': "\<forall>c u. timeout_nomcp ?sn \<le> fst (fst (fetcher_slow c u))" by simp
  have n2: "max_retries_nomcp ?sn \<ge> 1" "max_retries_nomcp ?sn \<le> 1025"
    "max_requests_nomcp (rate_limiter_nomcp ?sn) \<ge> 1"
    "is_available_nomcp (clock_nomcp ?sn) (fst (get_circuit_breaker ?u ?sn))"
    by (simp_all add: n_eval)
  note T = timeout_is_retried_to_the_end[where s = ?s and get = too_slow and ep = ?u
      and fuel = 1 and on_progress = None and tot = 1 and sn = ?sn
      and fetcher = "Some fetcher_slow"]
  have hw: "(\<forall>c u t. timeout ?s \<le> fst (fst (too_slow c u t))) \<and> max_retries ?s \<ge> 1
      \<and> max_retries ?s \<le> 1025 \<and> limiter_ok (clock ?s) (rate_limiter ?s) \<and> (1::nat) \<ge> 1
      \<and> \<not> fst (is_open (clock ?s) (circuit_breaker ?s) ?u)"
    using h1 h2 by (intro conjI)
  have hn: "(\<forall>c u. timeout_nomcp ?sn
              \<le> fst (fst ((case Some fetcher_slow of None \<Rightarrow> default_fetch | Some f \<Rightarrow> f) c u)))
      \<and> max_retries_nomcp ?sn \<ge> 1 \<and> max_retries_nomcp ?sn \<le> 1025
      \<and> max_requests_nomcp (rate_limiter_nomcp ?sn) \<ge> 1
      \<and> is_available_nomcp (clock_nomcp ?sn) (fst (get_circuit_breaker ?u ?sn))"
    using n1 n2 by (intro conjI)
  from conjunct1[OF T, THEN mp, OF hw]
  have a: "\<exists>r s' evs. fetch_one 1 too_slow None 1 ?u ?s = Some (r, s')
          \<and> failed_d s' ?u = Some [] \<and> trace s' = trace ?s @ evs
          \<and> length (filter is_transport evs) = nat 3"
    unfolding m by (elim exE conjE) (intro exI conjI, assumption+)
  from conjunct2[OF T, THEN mp, OF hn]
  have b: "\<exists>sn' evs. fetch_one_nomcp (Some fetcher_slow) ?u ?sn = (Inr (?u, JNone, Some ''Timeout''), sn')
          \<and> trace_nomcp sn' = trace_nomcp ?sn @ evs
          \<and> length (filter is_transport evs) = nat 3"
    unfolding m by (elim exE conjE) (intro exI conjI, assumption+)
  show ?thesis using h1 h2 a n1' n2 b by (intro conjI)
qed

text \<open>
  The reason text of the claim as stated, \<^verbatim>\<open>"timeout"\<close>, is not what the code stores:
  the runs of \<^verbatim>\<open>test_timeout_handling\<close> of both files.
\<close>

theorem timeout_reason_counterexample:
  "failed_reason (result_of (fetch_all 1 too_slow None [''http://slow.com'']
       (aggregator () 10 (1 / 10) 1 5 30))) ''http://slow.com'' = Some []
   \<and> failed_reason (result_of (Some (fetch_all_nomcp (Some fetcher_slow) None [''http://slow.com'']
       (aggregator_nomcp () 10 3 1 5 (1 / 10))))) ''http://slow.com'' = Some ''Timeout''
   \<and> [] \<noteq> ''timeout'' \<and> ''Timeout'' \<noteq> ''timeout''"
  by (simp add: w_eval n_eval too_slow_def fetcher_slow_def failed_reason_def)

subsection \<open>C6: the retry executor\<close>

text \<open>
  Claim C6: what the code does. \<^verbatim>\<open>retry_with_backoff\<close> with \<open>max_attempts \<ge> 1\<close>, watched
  through a probe: the probe's log is a run of failed invocations, the one with index \<open>i\<close>
  followed by a sleep of \<open>base_delay * 2 ^ i\<close>, and then one last invocation, so there are
  at most \<open>max_attempts\<close> invocations and nothing is slept after the last one. Up to
  \<open>max_attempts = 1025\<close> the result of the last invocation is the result of the executor
  (a success ends the run; a failure is surfaced only after \<open>max_attempts\<close> invocations),
  as the claim says. From 1026 attempts on the claim fails: when the invocation with index
  1024 fails with attempts remaining, the delay \<^verbatim>\<open>base_delay * (2 ** 1024)\<close> cannot be
  computed and the executor ends with \<^verbatim>\<open>OverflowError\<close> after 1025 invocations. With
  \<open>max_attempts = 3\<close> and an attempt that fails twice and then succeeds, the result is the
  success and the attempt was invoked three times.

  The loop of the aggregator without MCP is the same executor with a base delay of 0.1
  around \<open>attempt_nomcp\<close>: a run of failed attempts, each followed by its sleep, then a
  last attempt whose end state is the end state of the fetch; the fetch returns the
  payload of a successful last attempt, or, after \<open>max_retries\<close> attempts, the error text
  of the last attempt; and it ends with \<^verbatim>\<open>OverflowError\<close> under the same condition.
\<close>

theorem retry_with_backoff_schedule:
  assumes "max_attempts \<ge> 1"
    and "retry_with_backoff probe_sleep (probe_call func) max_attempts base_delay ([], s) = (r, evs, s')"
  shows "(\<exists>errs rl. evs = backoff_log base_delay 0 errs @ [Called rl] \<and> length errs \<le> 1024
            \<and> length (filter is_Called evs) = length errs + 1
            \<and> length (filter is_Called evs) \<le> nat max_attempts
            \<and> ((r = rl \<and> (isl r \<longrightarrow> length (filter is_Called evs) = nat max_attempts))
               \<or> (isl rl \<and> r = Inl OverflowError \<and> length errs = 1024 \<and> 1026 \<le> max_attempts)))
       \<and> (max_attempts \<le> 1025 \<longrightarrow>
            (\<exists>errs. evs = backoff_log base_delay 0 errs @ [Called r]
               \<and> length (filter is_Called evs) = length errs + 1
               \<and> length (filter is_Called evs) \<le> nat max_attempts
               \<and> (isl r \<longrightarrow> length (filter is_Called evs) = nat max_attempts)))
       \<and> retry_with_backoff probe_sleep (probe_call flaky_get) 3 base_delay ([], 0) =
           (Inr (JDict [(''data'', JStr ''success'')]),
            [Called (Inl (Exception ''Temporary failure'')), Slept (base_delay * 2 ^ 0),
             Called (Inl (Exception ''Temporary failure'')), Slept (base_delay * 2 ^ 1),
             Called (Inr (JDict [(''data'', JStr ''success'')]))], 3)
       \<and> (max_retries_nomcp sn \<ge> 1
            \<and> is_available_nomcp (clock_nomcp sn) (fst (get_circuit_breaker ep sn))
            \<and> fetch_one_nomcp fetcher ep sn = (res, sn') \<longrightarrow>
          (\<exists>msgs sk rl.
             failed_attempts_nomcp fetcher ep 0
               (log_ev_nomcp (BreakerCheck ep) (snd (get_circuit_breaker ep sn))) msgs sk
             \<and> attempt_nomcp fetcher ep sk = (rl, sn')
             \<and> length msgs < nat (max_retries_nomcp sn) \<and> length msgs \<le> 1024
             \<and> ((\<exists>v. rl = Inr v \<and> res = Inr (ep, v, None))
                \<or> (\<exists>msg. rl = Inl msg \<and> length msgs + 1 = nat (max_retries_nomcp sn)
                      \<and> res = Inr (ep, JNone, Some msg))
                \<or> (\<exists>msg. rl = Inl msg \<and> length msgs = 1024 \<and> 1026 \<le> max_retries_nomcp sn
                      \<and> res = Inl OverflowError))))
       \<and> fst (fetch_one_nomcp (Some flaky_fetcher) ''http://flaky.com''
                 (aggregator_nomcp (0::nat) 10 3 1 5 (1 / 10)))
           = Inr (''http://flaky.com'', JDict [(''data'', JStr ''success'')], None)
       \<and> trace_nomcp (snd (fetch_one_nomcp (Some flaky_fetcher) ''http://flaky.com''
                 (aggregator_nomcp (0::nat) 10 3 1 5 (1 / 10))))
           = [BreakerCheck ''http://flaky.com'',
              Acquire, TransportCall ''http://flaky.com'', RecordFailure ''http://flaky.com'',
              Sleep (1 / 10),
              Acquire, TransportCall ''http://flaky.com'', RecordFailure ''http://flaky.com'',
              Sleep (2 / 10),
              Acquire, TransportCall ''http://flaky.com'', RecordSuccess ''http://flaky.com'']"
proof -
  have pos: "0 < nat max_attempts" using assms(1) by simp
  from retry_attempts_probe[OF pos, of func base_delay None "[]" s r evs s'] assms(2)
  obtain errs rl where e: "length errs < nat max_attempts"
    "evs = backoff_log base_delay 0 errs @ [Called rl]"
    "errs \<noteq> [] \<longrightarrow> length errs \<le> 1024"
    "(r = rl \<and> (isl r \<longrightarrow> length errs = nat max_attempts - 1))
       \<or> (isl rl \<and> r = Inl OverflowError \<and> 1024 \<le> length errs
            \<and> length errs < nat max_attempts - 1)"
    by (auto simp: retry_with_backoff_def)
  have le: "length errs \<le> 1024" using e(3) by (cases errs) simp_all
  have calls: "length (filter is_Called evs) = length errs + 1"
    using e(2) by (simp add: calls_backoff_log)
  have d: "(r = rl \<and> (isl r \<longrightarrow> length (filter is_Called evs) = nat max_attempts))
       \<or> (isl rl \<and> r = Inl OverflowError \<and> length errs = 1024 \<and> 1026 \<le> max_attempts)"
    using e(4) le calls pos by auto
  have 1: "\<exists>errs rl. evs = backoff_log base_delay 0 errs @ [Called rl] \<and> length errs \<le> 1024
            \<and> length (filter is_Called evs) = length errs + 1
            \<and> length (filter is_Called evs) \<le> nat max_attempts
            \<and> ((r = rl \<and> (isl r \<longrightarrow> length (filter is_Called evs) = nat max_attempts))
               \<or> (isl rl \<and> r = Inl OverflowError \<and> length errs = 1024 \<and> 1026 \<le> max_attempts))"
    using e(1,2) le calls d by (intro exI[of _ errs] exI[of _ rl]) simp
  have 2: "max_attempts \<le> 1025 \<longrightarrow>
            (\<exists>errs. evs = backoff_log base_delay 0 errs @ [Called r]
               \<and> length (filter is_Called evs) = length errs + 1
               \<and> length (filter is_Called evs) \<le> nat max_attempts
               \<and> (isl r \<longrightarrow> length (filter is_Called evs) = nat max_attempts))"
  proof
    assume "max_attempts \<le> 1025"
    with d have "r = rl" "isl r \<longrightarrow> length (filter is_Called evs) = nat max_attempts"
      by auto
    with e(1,2) calls show "\<exists>errs. evs = backoff_log base_delay 0 errs @ [Called r]
               \<and> length (filter is_Called evs) = length errs + 1
               \<and> length (filter is_Called evs) \<le> nat max_attempts
               \<and> (isl r \<longrightarrow> length (filter is_Called evs) = nat max_attempts)"
      by (intro exI[of _ errs]) simp
  qed
  have 3: "retry_with_backoff probe_sleep (probe_call flaky_get) 3 base_delay ([], 0) =
           (Inr (JDict [(''data'', JStr ''success'')]),
            [Called (Inl (Exception ''Temporary failure'')), Slept (base_delay * 2 ^ 0),
             Called (Inl (Exception ''Temporary failure'')), Slept (base_delay * 2 ^ 1),
             Called (Inr (JDict [(''data'', JStr ''success'')]))], 3)"
    by (simp add: retry_with_backoff_def probe_call_def probe_sleep_def flaky_get_def
          backoff_delay_def upt_conv_Cons numeral_3_eq_3)
  have 4: "max_retries_nomcp sn \<ge> 1
            \<and> is_available_nomcp (clock_nomcp sn) (fst (get_circuit_breaker ep sn))
            \<and> fetch_one_nomcp fetcher ep sn = (res, sn') \<longrightarrow>
          (\<exists>msgs sk rl.
             failed_attempts_nomcp fetcher ep 0
               (log_ev_nomcp (BreakerCheck ep) (snd (get_circuit_breaker ep sn))) msgs sk
             \<and> attempt_nomcp fetcher ep sk = (rl, sn')
             \<and> length msgs < nat (max_retries_nomcp sn) \<and> length msgs \<le> 1024
             \<and> ((\<exists>v. rl = Inr v \<and> res = Inr (ep, v, None))
                \<or> (\<exists>msg. rl = Inl msg \<and> length msgs + 1 = nat (max_retries_nomcp sn)
                      \<and> res = Inr (ep, JNone, Some msg))
                \<or> (\<exists>msg. rl = Inl msg \<and> length msgs = 1024 \<and> 1026 \<le> max_retries_nomcp sn
                      \<and> res = Inl OverflowError)))"
  proof
    assume a: "max_retries_nomcp sn \<ge> 1
            \<and> is_available_nomcp (clock_nomcp sn) (fst (get_circuit_breaker ep sn))
            \<and> fetch_one_nomcp fetcher ep sn = (res, sn')"
    let ?M = "max_retries_nomcp sn"
    obtain cb s1 where g: "get_circuit_breaker ep sn = (cb, s1)"
      by (cases "get_circuit_breaker ep sn")
    then have s1: "max_retries_nomcp s1 = ?M" "clock_nomcp s1 = clock_nomcp sn"
      by (auto simp: get_circuit_breaker_def Let_def split: option.splits)
    let ?s2 = "log_ev_nomcp (BreakerCheck ep) s1"
    have s2: "max_retries_nomcp ?s2 = ?M" "clock_nomcp ?s2 = clock_nomcp sn"
      using s1 by (simp_all add: log_ev_nomcp_def)
    from a have a1: "?M \<ge> 1" and a2: "is_available_nomcp (clock_nomcp sn) cb"
      and a3: "fetch_one_nomcp fetcher ep sn = (res, sn')" using g by simp_all
    from a2 a3 g s2 have loop: "attempts_nomcp fetcher ep [0..<nat ?M] None ?s2 = (res, sn')"
      by (simp add: fetch_one_nomcp_def Let_def)
    have pos: "0 < nat ?M" using a1 by simp
    from attempts_nomcp_run[OF loop s2(1) pos] obtain msgs sk rl where
      r: "failed_attempts_nomcp fetcher ep 0 ?s2 msgs sk"
        "attempt_nomcp fetcher ep sk = (rl, sn')"
        "0 + length msgs < nat ?M" "msgs \<noteq> [] \<longrightarrow> 0 + length msgs \<le> 1024"
        "(\<exists>v. rl = Inr v \<and> res = Inr (ep, v, None))
          \<or> (\<exists>msg. rl = Inl msg \<and> 0 + length msgs = nat ?M - 1
                \<and> res = Inr (ep, JNone, Some msg))
          \<or> (\<exists>msg. rl = Inl msg \<and> 1024 \<le> 0 + length msgs \<and> 0 + length msgs < nat ?M - 1
                \<and> res = Inl OverflowError)"
      by blast
    have le: "length msgs \<le> 1024" using r(4) by (cases msgs) simp_all
    have d: "(\<exists>v. rl = Inr v \<and> res = Inr (ep, v, None))
                \<or> (\<exists>msg. rl = Inl msg \<and> length msgs + 1 = nat ?M
                      \<and> res = Inr (ep, JNone, Some msg))
                \<or> (\<exists>msg. rl = Inl msg \<and> length msgs = 1024 \<and> 1026 \<le> ?M
                      \<and> res = Inl OverflowError)"
      using r(5) le pos by auto
    show "\<exists>msgs sk rl.
             failed_attempts_nomcp fetcher ep 0
               (log_ev_nomcp (BreakerCheck ep) (snd (get_circuit_breaker ep sn))) msgs sk
             \<and> attempt_nomcp fetcher ep sk = (rl, sn')
             \<and> length msgs < nat ?M \<and> length msgs \<le> 1024
             \<and> ((\<exists>v. rl = Inr v \<and> res = Inr (ep, v, None))
                \<or> (\<exists>msg. rl = Inl msg \<and> length msgs + 1 = nat ?M
                      \<and> res = Inr (ep, JNone, Some msg))
                \<or> (\<exists>msg. rl = Inl msg \<and> length msgs = 1024 \<and> 1026 \<le> ?M
                      \<and> res = Inl OverflowError))"
      using r(1,2,3) le d g by (intro exI[of _ msgs] exI[of _ sk] exI[of _ rl]) simp
  qed
  have 5: "fst (fetch_one_nomcp (Some flaky_fetcher) ''http://flaky.com''
                 (aggregator_nomcp (0::nat) 10 3 1 5 (1 / 10)))
           = Inr (''http://flaky.com'', JDict [(''data'', JStr ''success'')], None)"
    by (simp add: n_eval flaky_fetcher_def flaky_get_def)
  have 6: "trace_nomcp (snd (fetch_one_nomcp (Some flaky_fetcher) ''http://flaky.com''
                 (aggregator_nomcp (0::nat) 10 3 1 5 (1 / 10))))
           = [BreakerCheck ''http://flaky.com'',
              Acquire, TransportCall ''http://flaky.com'', RecordFailure ''http://flaky.com'',
              Sleep (1 / 10),
              Acquire, TransportCall ''http://flaky.com'', RecordFailure ''http://flaky.com'',
              Sleep (2 / 10),
              Acquire, TransportCall ''http://flaky.com'', RecordSuccess ''http://flaky.com'']"
    by (simp add: n_eval flaky_fetcher_def flaky_get_def)
  show ?thesis using 1 2 3 4 5 6 by (intro conjI)
qed

theorem retry_with_backoff_schedule_witness:
  "(1::int) \<le> 3 \<and> (3::int) \<le> 1025
   \<and> retry_with_backoff probe_sleep (probe_call flaky_get) 3 (1 / 10) ([], 0) =
        (Inr (JDict [(''data'', JStr ''success'')]),
         [Called (Inl (Exception ''Temporary failure'')), Slept (1 / 10),
          Called (Inl (Exception ''Temporary failure'')), Slept (2 / 10),
          Called (Inr (JDict [(''data'', JStr ''success'')]))], 3)
   \<and> length (filter is_Called
        [Called (Inl (Exception ''Temporary failure'')), Slept (1 / 10),
         Called (Inl (Exception ''Temporary failure'')), Slept (2 / 10),
         Called (Inr (JDict [(''data'', JStr ''success'')]))]) \<le> nat 3
   \<and> max_retries_nomcp (aggregator_nomcp (0::nat) 10 3 1 5 (1 / 10)) \<ge> 1
   \<and> is_available_nomcp (clock_nomcp (aggregator_nomcp (0::nat) 10 3 1 5 (1 / 10)))
        (fst (get_circuit_breaker ''http://flaky.com'' (aggregator_nomcp (0::nat) 10 3 1 5 (1 / 10))))
   \<and> (\<exists>msgs sk rl.
         failed_attempts_nomcp (Some flaky_fetcher) ''http://flaky.com'' 0
           (log_ev_nomcp (BreakerCheck ''http://flaky.com'')
              (snd (get_circuit_breaker ''http://flaky.com''
                      (aggregator_nomcp (0::nat) 10 3 1 5 (1 / 10))))) msgs sk
         \<and> attempt_nomcp (Some flaky_fetcher) ''http://flaky.com'' sk
             = (rl, snd (fetch_one_nomcp (Some flaky_fetcher) ''http://flaky.com''
                           (aggregator_nomcp (0::nat) 10 3 1 5 (1 / 10))))
         \<and> length msgs < nat (max_retries_nomcp (aggregator_nomcp (0::nat) 10 3 1 5 (1 / 10))))"
proof -
  let ?sn = "aggregator_nomcp (0::nat) 10 3 1 5 (1 / 10)"
  let ?n = "fetch_one_nomcp (Some flaky_fetcher) ''http://flaky.com'' ?sn"
  have h: "(1::int) \<le> 3" "(3::int) \<le> 1025" by simp_all
  have run: "retry_with_backoff probe_sleep (probe_call flaky_get) 3 (1 / 10) ([], 0) =
        (Inr (JDict [(''data'', JStr ''success'')]),
         [Called (Inl (Exception ''Temporary failure'')), Slept (1 / 10),
          Called (Inl (Exception ''Temporary failure'')), Slept (2 / 10),
          Called (Inr (JDict [(''data'', JStr ''success'')]))], 3)"
    by (simp add: retry_with_backoff_def probe_call_def probe_sleep_def flaky_get_def
          backoff_delay_def upt_conv_Cons numeral_3_eq_3)
  have m: "max_retries_nomcp ?sn \<ge> 1" by (simp add: n_eval)
  have av: "is_available_nomcp (clock_nomcp ?sn) (fst (get_circuit_breaker ''http://flaky.com'' ?sn))"
    by (simp add: n_eval)
  have n: "?n = (fst ?n, snd ?n)" by simp
  note T = retry_with_backoff_schedule[OF h(1) run, where fetcher = "Some flaky_fetcher"
      and ep = "''http://flaky.com''" and sn = ?sn and res = "fst ?n" and sn' = "snd ?n"]
  note T2 = conjunct1[OF conjunct2[OF T], THEN mp, OF h(2)]
  note T4 = conjunct1[OF conjunct2[OF conjunct2[OF conjunct2[OF T]]], THEN mp,
      OF conjI[OF m conjI[OF av n]]]
  have a: "length (filter is_Called
        [Called (Inl (Exception ''Temporary failure'')), Slept (1 / 10),
         Called (Inl (Exception ''Temporary failure'')), Slept (2 / 10),
         Called (Inr (JDict [(''data'', JStr ''success'')]))]) \<le> nat 3"
    using T2 by (elim exE conjE)
  have b: "\<exists>msgs sk rl.
         failed_attempts_nomcp (Some flaky_fetcher) ''http://flaky.com'' 0
           (log_ev_nomcp (BreakerCheck ''http://flaky.com'')
              (snd (get_circuit_breaker ''http://flaky.com'' ?sn))) msgs sk
         \<and> attempt_nomcp (Some flaky_fetcher) ''http://flaky.com'' sk = (rl, snd ?n)
         \<and> length msgs < nat (max_retries_nomcp ?sn)"
    using T4 by (elim exE conjE) (intro exI conjI, assumption+)
  show ?thesis using h run a m av b by (intro conjI)
qed

text \<open>
  The claim as stated fails at \<open>max_attempts = 1026\<close>, a base delay of 0 and an attempt
  that always fails: the executor ends with \<^verbatim>\<open>OverflowError\<close>, not with the failure of
  the attempt, after 1025 invocations, not 1026.
\<close>

theorem retry_overflow_counterexample:
  "fst (retry_with_backoff probe_sleep (probe_call always_raises) 1026 0 ([], ()))
     = Inl OverflowError
   \<and> length (filter is_Called
        (fst (snd (retry_with_backoff probe_sleep (probe_call always_raises) 1026 0 ([], ())))))
     = 1025"
proof -
  obtain r evs s' where
    run: "retry_attempts probe_sleep (probe_call always_raises) 1026 0 [0..<nat 1026] None
            ([], ()) = (r, evs :: json probe_event list, s')"
    by (metis prod.exhaust)
  have pos: "0 < nat 1026" by simp
  from retry_attempts_probe[OF pos run] obtain errs rl where
    e: "length errs < nat 1026" "evs = backoff_log 0 0 errs @ [Called rl]"
      "errs \<noteq> [] \<longrightarrow> length errs \<le> 1024" "\<exists>sl. rl = fst (always_raises sl)"
      "(r = rl \<and> (isl r \<longrightarrow> length errs = nat 1026 - 1))
         \<or> (isl rl \<and> r = Inl OverflowError \<and> 1024 \<le> length errs
              \<and> length errs < nat 1026 - 1)"
    by auto
  from e(4) have f: "isl rl" by (auto simp: always_raises_def)
  have le: "length errs \<le> 1024" using e(3) by (cases errs) simp_all
  from e(5) f le have "r = Inl OverflowError" "length errs = 1024" by auto
  with e(2) run show ?thesis
    by (simp add: retry_with_backoff_def calls_backoff_log)
qed

subsection \<open>C7: the circuit breaker\<close>

text \<open>
  Claim C7, as amended. In both implementations, for an endpoint without recorded failures
  (never seen, or reset by \<^verbatim>\<open>record_success\<close>), the breaker is available after fewer than
  \<open>failure_threshold\<close> failures and open from the failure that reaches the threshold on.
  Every failure recorded at or past the threshold stamps the time again (with MCP
  \<^verbatim>\<open>_open_times[endpoint]\<close>; without MCP \<^verbatim>\<open>_last_failure_time\<close>, which every failure
  stamps), so the recovery time is measured from the most recent recorded failure \<open>t\<close>, not
  from the failure that opened the breaker: the open breaker is unavailable while
  \<open>now - t < recovery_timeout\<close> and available once \<open>now - t \<ge> recovery_timeout\<close>. With MCP
  it then reports and stores \<open>HALF_OPEN\<close>; without MCP there are only the states \<open>CLOSED\<close>
  and \<open>OPEN\<close>, and the state stays \<open>OPEN\<close> while \<^verbatim>\<open>is_available\<close> answers true.
  \<^verbatim>\<open>record_success\<close> sets the count to 0 and the state to \<open>CLOSED\<close>.
\<close>

theorem breaker_threshold_and_recovery:
  assumes "failure_counts cb ep = None \<or> failure_counts cb ep = Some 0"
    and "states cb ep = None \<or> states cb ep = Some CLOSED"
    and "failure_count cbn = 0" and "state cbn = CLOSED_nomcp"
  shows "(int (length ts) < failure_threshold cb \<longrightarrow>
            \<not> fst (is_open now (record_failures ts cb ep) ep))
       \<and> (failure_threshold cb \<le> int (length (ts @ [t])) \<longrightarrow>
            states (record_failures (ts @ [t]) cb ep) ep = Some OPEN
            \<and> open_times (record_failures (ts @ [t]) cb ep) ep = Some t
            \<and> (now - t < recovery_timeout cb \<longrightarrow>
                 get_state now (record_failures (ts @ [t]) cb ep) ep
                   = (OPEN, record_failures (ts @ [t]) cb ep)
                 \<and> fst (is_open now (record_failures (ts @ [t]) cb ep) ep))
            \<and> (now - t \<ge> recovery_timeout cb \<longrightarrow>
                 get_state now (record_failures (ts @ [t]) cb ep) ep
                   = (HALF_OPEN, (record_failures (ts @ [t]) cb ep)
                        \<lparr>states := (states (record_failures (ts @ [t]) cb ep))(ep \<mapsto> HALF_OPEN)\<rparr>)
                 \<and> \<not> fst (is_open now (record_failures (ts @ [t]) cb ep) ep)))
       \<and> failure_counts (record_success cbx ep) ep = Some 0
       \<and> states (record_success cbx ep) ep = Some CLOSED
       \<and> (int (length ts) < max_failures cbn \<longrightarrow>
            is_available_nomcp now (record_failures_nomcp ts cbn))
       \<and> (max_failures cbn \<le> int (length (ts @ [t])) \<longrightarrow>
            state (record_failures_nomcp (ts @ [t]) cbn) = OPEN_nomcp
            \<and> last_failure_time (record_failures_nomcp (ts @ [t]) cbn) = t
            \<and> (is_available_nomcp now (record_failures_nomcp (ts @ [t]) cbn)
                 \<longleftrightarrow> now - t \<ge> recovery_time cbn))
       \<and> failure_count (record_success_nomcp cby) = 0
       \<and> state (record_success_nomcp cby) = CLOSED_nomcp"
proof -
  have c0: "count_of cb ep = 0" using assms(1) by auto
  have a: "int (length ts) < failure_threshold cb \<longrightarrow>
            \<not> fst (is_open now (record_failures ts cb ep) ep)"
  proof
    assume lt: "int (length ts) < failure_threshold cb"
    then have "states (record_failures ts cb ep) = states cb"
      using record_failures_below[of cb ep ts] c0 by simp
    then show "\<not> fst (is_open now (record_failures ts cb ep) ep)"
      using assms(2) is_open_closed[of "record_failures ts cb ep" ep now] by simp
  qed
  let ?d = "record_failures (ts @ [t]) cb ep"
  have b: "failure_threshold cb \<le> int (length (ts @ [t])) \<longrightarrow>
            states ?d ep = Some OPEN \<and> open_times ?d ep = Some t
            \<and> (now - t < recovery_timeout cb \<longrightarrow>
                 get_state now ?d ep = (OPEN, ?d) \<and> fst (is_open now ?d ep))
            \<and> (now - t \<ge> recovery_timeout cb \<longrightarrow>
                 get_state now ?d ep = (HALF_OPEN, ?d\<lparr>states := (states ?d)(ep \<mapsto> HALF_OPEN)\<rparr>)
                 \<and> \<not> fst (is_open now ?d ep))"
  proof
    assume h: "failure_threshold cb \<le> int (length (ts @ [t]))"
    then have "failure_threshold cb \<le> count_of cb ep + int (length (ts @ [t]))"
      using c0 by simp
    note d = record_failures_opens[OF this]
    from get_state_open[OF d(1) d(2), of now] d
    show "states ?d ep = Some OPEN \<and> open_times ?d ep = Some t
            \<and> (now - t < recovery_timeout cb \<longrightarrow>
                 get_state now ?d ep = (OPEN, ?d) \<and> fst (is_open now ?d ep))
            \<and> (now - t \<ge> recovery_timeout cb \<longrightarrow>
                 get_state now ?d ep = (HALF_OPEN, ?d\<lparr>states := (states ?d)(ep \<mapsto> HALF_OPEN)\<rparr>)
                 \<and> \<not> fst (is_open now ?d ep))"
      by (simp add: is_open_def)
  qed
  have e: "int (length ts) < max_failures cbn \<longrightarrow>
            is_available_nomcp now (record_failures_nomcp ts cbn)"
    using record_failures_nomcp_below[of cbn ts] assms(3,4)
    by (simp add: is_available_nomcp_def)
  let ?n = "record_failures_nomcp (ts @ [t]) cbn"
  have f: "max_failures cbn \<le> int (length (ts @ [t])) \<longrightarrow>
            state ?n = OPEN_nomcp \<and> last_failure_time ?n = t
            \<and> (is_available_nomcp now ?n \<longleftrightarrow> now - t \<ge> recovery_time cbn)"
  proof
    assume h: "max_failures cbn \<le> int (length (ts @ [t]))"
    then have "max_failures cbn \<le> failure_count cbn + int (length (ts @ [t]))"
      using assms(3) by simp
    from record_failures_nomcp_opens[OF this]
    show "state ?n = OPEN_nomcp \<and> last_failure_time ?n = t
            \<and> (is_available_nomcp now ?n \<longleftrightarrow> now - t \<ge> recovery_time cbn)"
      by (simp add: is_available_nomcp_def)
  qed
  have g: "failure_counts (record_success cbx ep) ep = Some 0"
    "states (record_success cbx ep) ep = Some CLOSED"
    "failure_count (record_success_nomcp cby) = 0"
    "state (record_success_nomcp cby) = CLOSED_nomcp"
    by (simp_all add: record_success_resets record_success_nomcp_def)
  show ?thesis using a b e f g by (intro conjI)
qed

theorem breaker_threshold_and_recovery_witness:
  "failure_counts (CircuitBreaker_init 3 30) ''endpoint'' = None
   \<and> states (CircuitBreaker_init 3 30) ''endpoint'' = None
   \<and> failure_count (CircuitBreaker_init_nomcp 3 30) = 0
   \<and> state (CircuitBreaker_init_nomcp 3 30) = CLOSED_nomcp
   \<and> int (length [0, 1 :: real]) < failure_threshold (CircuitBreaker_init 3 30)
   \<and> \<not> fst (is_open 2 (record_failures [0, 1] (CircuitBreaker_init 3 30) ''endpoint'') ''endpoint'')
   \<and> failure_threshold (CircuitBreaker_init 3 30) \<le> int (length ([0, 1, 2] @ [3 :: real]))
   \<and> (4 :: real) - 3 < recovery_timeout (CircuitBreaker_init 3 30)
   \<and> fst (is_open 4 (record_failures ([0, 1, 2] @ [3]) (CircuitBreaker_init 3 30) ''endpoint'')
          ''endpoint'')
   \<and> (33 :: real) - 3 \<ge> recovery_timeout (CircuitBreaker_init 3 30)
   \<and> fst (get_state 33 (record_failures ([0, 1, 2] @ [3]) (CircuitBreaker_init 3 30) ''endpoint'')
          ''endpoint'') = HALF_OPEN
   \<and> \<not> fst (is_open 33 (record_failures ([0, 1, 2] @ [3]) (CircuitBreaker_init 3 30) ''endpoint'')
          ''endpoint'')
   \<and> int (length [0, 1 :: real]) < max_failures (CircuitBreaker_init_nomcp 3 30)
   \<and> is_available_nomcp 2 (record_failures_nomcp [0, 1] (CircuitBreaker_init_nomcp 3 30))
   \<and> max_failures (CircuitBreaker_init_nomcp 3 30) \<le> int (length ([0, 1, 2] @ [3 :: real]))
   \<and> \<not> is_available_nomcp 4 (record_failures_nomcp ([0, 1, 2] @ [3]) (CircuitBreaker_init_nomcp 3 30))
   \<and> is_available_nomcp 33 (record_failures_nomcp ([0, 1, 2] @ [3]) (CircuitBreaker_init_nomcp 3 30))
   \<and> state (record_failures_nomcp ([0, 1, 2] @ [3]) (CircuitBreaker_init_nomcp 3 30)) = OPEN_nomcp"
proof -
  let ?cb = "CircuitBreaker_init 3 30" and ?cbn = "CircuitBreaker_init_nomcp 3 30"
  let ?ep = "''endpoint''"
  have g1: "failure_counts ?cb ?ep = None" and g2: "states ?cb ?ep = None"
    by (simp_all add: CircuitBreaker_init_def)
  have g5: "failure_count ?cbn = 0" and g6: "state ?cbn = CLOSED_nomcp"
    by (simp_all add: CircuitBreaker_init_nomcp_def)
  have a1: "int (length [0, 1 :: real]) < failure_threshold ?cb"
    and a2: "failure_threshold ?cb \<le> int (length ([0, 1, 2] @ [3 :: real]))"
    and a3: "(4 :: real) - 3 < recovery_timeout ?cb"
    and a4: "(33 :: real) - 3 \<ge> recovery_timeout ?cb"
    by (simp_all add: CircuitBreaker_init_def)
  have n1: "int (length [0, 1 :: real]) < max_failures ?cbn"
    and n2: "max_failures ?cbn \<le> int (length ([0, 1, 2] @ [3 :: real]))"
    and n3: "\<not> (4 :: real) - 3 \<ge> recovery_time ?cbn"
    and n4: "(33 :: real) - 3 \<ge> recovery_time ?cbn"
    by (simp_all add: CircuitBreaker_init_nomcp_def)
  note A = breaker_threshold_and_recovery[where cb = ?cb and ep = ?ep and cbn = ?cbn
      and ts = "[0, 1]" and now = 2, OF disjI1[OF g1] disjI1[OF g2] g5 g6]
  note B = breaker_threshold_and_recovery[where cb = ?cb and ep = ?ep and cbn = ?cbn
      and ts = "[0, 1, 2]" and t = 3 and now = 4, OF disjI1[OF g1] disjI1[OF g2] g5 g6]
  note C = breaker_threshold_and_recovery[where cb = ?cb and ep = ?ep and cbn = ?cbn
      and ts = "[0, 1, 2]" and t = 3 and now = 33, OF disjI1[OF g1] disjI1[OF g2] g5 g6]
  have w1: "\<not> fst (is_open 2 (record_failures [0, 1] ?cb ?ep) ?ep)"
    using A a1 by blast
  have w2: "fst (is_open 4 (record_failures ([0, 1, 2] @ [3]) ?cb ?ep) ?ep)"
    using B a2 a3 by blast
  have w3: "fst (get_state 33 (record_failures ([0, 1, 2] @ [3]) ?cb ?ep) ?ep) = HALF_OPEN"
    "\<not> fst (is_open 33 (record_failures ([0, 1, 2] @ [3]) ?cb ?ep) ?ep)"
    using C a2 a4 by simp_all
  have w4: "is_available_nomcp 2 (record_failures_nomcp [0, 1] ?cbn)"
    using A n1 by blast
  have w5: "\<not> is_available_nomcp 4 (record_failures_nomcp ([0, 1, 2] @ [3]) ?cbn)"
    using B n2 n3 by blast
  have w6: "is_available_nomcp 33 (record_failures_nomcp ([0, 1, 2] @ [3]) ?cbn)"
    "state (record_failures_nomcp ([0, 1, 2] @ [3]) ?cbn) = OPEN_nomcp"
    using C n2 n4 by blast+
  show ?thesis
    using g1 g2 g5 g6 a1 w1 a2 a3 w2 a4 w3 n1 w4 n2 w5 w6 by (intro conjI)
qed

text \<open>
  The claim as stated fails in both implementations: threshold 1, recovery after 30
  seconds. A failure at time 0 opens the breaker; a second failure is recorded at time 0.1
  (without MCP the retry of the same fetch; with MCP the failure of a fetch that was
  admitted before the breaker opened). At time 30 the breaker has been open for 30 seconds
  and is still not available. Without MCP the breaker that has become available at time 31
  is in state \<open>OPEN\<close>, not in a half-open state.
\<close>

theorem breaker_restamp_counterexample:
  "state (record_failures_nomcp [0] (CircuitBreaker_init_nomcp 1 30)) = OPEN_nomcp
   \<and> state (record_failures_nomcp [0, 1 / 10] (CircuitBreaker_init_nomcp 1 30)) = OPEN_nomcp
   \<and> (30::real) - 0 \<ge> recovery_time (record_failures_nomcp [0, 1 / 10] (CircuitBreaker_init_nomcp 1 30))
   \<and> \<not> is_available_nomcp 30 (record_failures_nomcp [0, 1 / 10] (CircuitBreaker_init_nomcp 1 30))
   \<and> is_available_nomcp 31 (record_failures_nomcp [0, 1 / 10] (CircuitBreaker_init_nomcp 1 30))
   \<and> states (record_failures [0] (CircuitBreaker_init 1 30) ''endpoint'') ''endpoint'' = Some OPEN
   \<and> open_times (record_failures [0] (CircuitBreaker_init 1 30) ''endpoint'') ''endpoint'' = Some 0
   \<and> (30::real) - 0 \<ge> recovery_timeout (record_failures [0, 1 / 10] (CircuitBreaker_init 1 30) ''endpoint'')
   \<and> fst (is_open 30 (record_failures [0, 1 / 10] (CircuitBreaker_init 1 30) ''endpoint'') ''endpoint'')
   \<and> fst (get_state 30 (record_failures [0, 1 / 10] (CircuitBreaker_init 1 30) ''endpoint'')
           ''endpoint'') = OPEN"
  by (simp add: CircuitBreaker_init_nomcp_def record_failure_nomcp_def is_available_nomcp_def
        CircuitBreaker_init_def record_failure_def is_open_def get_state_def Let_def)

subsection \<open>C8: failures are recorded, not raised\<close>




subsection \<open>C9: the token bucket\<close>

text \<open>
  Claim C9 at a concrete input: a limiter for 2 requests per second, three calls of
  \<^verbatim>\<open>acquire\<close> at the times 0, 0 and 0.1. The third call finds 0.2 tokens after the
  refill, passes the \<^verbatim>\<open>while self._tokens <= 0\<close> test, and leaves \<open>- 0.8\<close> tokens.
\<close>

theorem acquire_leaves_negative_tokens:
  "acquire_at 1 [0, 0, 1 / 10] 0 (RateLimiter_init 2 1 0) =
     Some (Inr (), 1 / 10,
           \<lparr>max_requests = 2, time_window = 1, tokens = - 4 / 5, last_update = 1 / 10\<rparr>)"
  by (simp add: acquire_def RateLimiter_init_def refill_def Let_def)

subsection \<open>C10: construction with an invalid configuration\<close>

text \<open>
  Claim C10, as amended. Construction never raises: \<^verbatim>\<open>DataAggregator.__init__\<close> checks
  nothing and stores the rate and the number of retries as they are given, also when they
  are not positive. Both implementations.
\<close>

theorem construction_never_raises:
  "\<not> isl (DataAggregator_init now client rate_limit tmo retries cbo)
   \<and> max_retries (projr (DataAggregator_init now client rate_limit tmo retries cbo)) = retries
   \<and> max_requests (rate_limiter (projr (DataAggregator_init now client rate_limit tmo retries cbo)))
        = rate_limit
   \<and> \<not> isl (DataAggregator_init_nomcp now fs rate_limit retries tmo threshold recovery)
   \<and> max_retries_nomcp
        (projr (DataAggregator_init_nomcp now fs rate_limit retries tmo threshold recovery)) = retries
   \<and> max_requests_nomcp (rate_limiter_nomcp
        (projr (DataAggregator_init_nomcp now fs rate_limit retries tmo threshold recovery)))
        = rate_limit"
  by (simp add: DataAggregator_init_def DataAggregator_init_nomcp_def RateLimiter_init_def
        RateLimiter_init_nomcp_def)

text \<open>
  The claim as stated fails: a rate of 0 and 0 retries, or a negative rate and negative
  retries, build an aggregator.
\<close>

theorem invalid_configuration_counterexample:
  "\<not> isl (DataAggregator_init 0 () 0 5 0 None)
   \<and> \<not> isl (DataAggregator_init 0 () (- 1) 5 (- 1) None)
   \<and> \<not> isl (DataAggregator_init_nomcp 0 () 0 0 5 5 30)
   \<and> \<not> isl (DataAggregator_init_nomcp 0 () (- 1) (- 1) 5 5 30)"
  by (simp add: DataAggregator_init_def DataAggregator_init_nomcp_def)


end
